theory Spec2Isabelle
  imports Complex_Main "HOL-Library.Sublist"
begin

section \<open>Numbers and optional fields\<close>

text \<open>
  The TypeScript type \<open>number\<close> is modelled by exact rationals: the packing code only
  adds, subtracts, multiplies and compares numbers, and on the small integers used in the
  evaluated examples below exact and double-precision arithmetic coincide.
  An optional field \<open>f?: number\<close> is a \<open>rat option\<close> (\<open>None\<close> for \<open>undefined\<close>).
\<close>

text \<open>\<open>v || d\<close> on an optional number: \<open>undefined\<close> and \<open>0\<close> are falsy.\<close>

definition num_or :: "rat option \<Rightarrow> rat \<Rightarrow> rat" where
  "num_or v d = (case v of None \<Rightarrow> d | Some n \<Rightarrow> if n = 0 then d else n)"

text \<open>Truthiness of an optional boolean, as in \<open>if (options.multiPage)\<close>.\<close>

definition truthy :: "bool option \<Rightarrow> bool" where
  "truthy b = (case b of None \<Rightarrow> False | Some v \<Rightarrow> v)"

section \<open>Data model (src/utils/packingAlgorithm.ts)\<close>

text \<open>
  Field names follow the source; a suffix tells the interfaces apart where the source reuses
  a name (\<open>_s\<close> for PhotoSize, \<open>_p\<close> for Photo and PackedPhoto, \<open>_r\<close> for FreeRectangle).
\<close>

record PhotoSize =
  name_s :: string
  width_s :: rat
  height_s :: rat

record Photo =
  id_p :: rat
  name_p :: string
  dataUrl :: string
  size_p :: PhotoSize
  rotation :: rat
  imgWidth :: rat
  imgHeight :: rat
  priority :: "rat option"
  quantity :: "rat option"

text \<open>\<open>interface PackedPhoto extends Photo\<close>.\<close>

record PackedPhoto = Photo +
  x_p :: rat
  y_p :: rat
  pageIndex :: nat

record FreeRectangle =
  x_r :: rat
  y_r :: rat
  width_r :: rat
  height_r :: rat

record PackingOptions =
  paperWidth :: rat
  paperHeight :: rat
  marginTop :: "rat option"
  marginRight :: "rat option"
  marginBottom :: "rat option"
  marginLeft :: "rat option"
  spacing :: "rat option"
  multiPage :: "bool option"

section \<open>Geometry\<close>

text \<open>The result object \<open>{ width, height }\<close> is the pair \<open>(width, height)\<close>.\<close>

definition getRotatedDimensions :: "'a Photo_scheme \<Rightarrow> rat \<times> rat" where
  "getRotatedDimensions photo =
     (if rotation photo = 90 \<or> rotation photo = 270
      then (height_s (size_p photo), width_s (size_p photo))
      else (width_s (size_p photo), height_s (size_p photo)))"

definition getPrintableArea :: "PackingOptions \<Rightarrow> FreeRectangle" where
  "getPrintableArea options =
     (let marginLeft' = num_or (marginLeft options) 0;
          marginRight' = num_or (marginRight options) 0;
          marginTop' = num_or (marginTop options) 0;
          marginBottom' = num_or (marginBottom options) 0
      in \<lparr> x_r = marginLeft',
           y_r = marginTop',
           width_r = paperWidth options - marginLeft' - marginRight',
           height_r = paperHeight options - marginTop' - marginBottom' \<rparr>)"

section \<open>Array operations of the host language\<close>

text \<open>
  \<open>Array.prototype.sort(cmp)\<close> is stable (ECMAScript 2019). For a comparator that is a
  total preorder, as all three comparators of this file are, the stable result is unique,
  so the sort is modelled by stable insertion: an element is put in front of the first
  element it does not have to follow (\<open>cmp x y \<le> 0\<close>).
\<close>

fun insert_by :: "('a \<Rightarrow> 'a \<Rightarrow> rat) \<Rightarrow> 'a \<Rightarrow> 'a list \<Rightarrow> 'a list" where
  "insert_by cmp v [] = [v]"
| "insert_by cmp v (u # us) =
     (if cmp v u \<le> 0 then v # u # us else u # insert_by cmp v us)"

definition sort_by :: "('a \<Rightarrow> 'a \<Rightarrow> rat) \<Rightarrow> 'a list \<Rightarrow> 'a list" where
  "sort_by cmp vs = foldr (insert_by cmp) vs []"

text \<open>\<open>arr.splice(i, 1)\<close>: remove the element at index \<open>i\<close>.\<close>

definition splice1 :: "nat \<Rightarrow> 'a list \<Rightarrow> 'a list" where
  "splice1 i vs = take i vs @ drop (Suc i) vs"

text \<open>The object literal \<open>{ ...photo, x, y, pageIndex }\<close>.\<close>

definition place :: "Photo \<Rightarrow> rat \<Rightarrow> rat \<Rightarrow> nat \<Rightarrow> PackedPhoto" where
  "place photo px py pg =
     \<lparr> id_p = id_p photo, name_p = name_p photo, dataUrl = dataUrl photo,
       size_p = size_p photo, rotation = rotation photo, imgWidth = imgWidth photo,
       imgHeight = imgHeight photo, priority = priority photo, quantity = quantity photo,
       x_p = px, y_p = py, pageIndex = pg \<rparr>"

section \<open>Input preparation: the comparators\<close>

text \<open>The comparator of \<open>packPhotosGuillotine\<close> and \<open>packPhotosMaxRects\<close>.\<close>

definition byPriorityThenArea :: "Photo \<Rightarrow> Photo \<Rightarrow> rat" where
  "byPriorityThenArea a b =
     (if num_or (priority a) 0 \<noteq> num_or (priority b) 0
      then num_or (priority b) 0 - num_or (priority a) 0
      else (let aSize = getRotatedDimensions a; bSize = getRotatedDimensions b
            in fst bSize * snd bSize - fst aSize * snd aSize))"

text \<open>The comparator of \<open>packPhotosShelf\<close>.\<close>

definition byPriorityThenHeight :: "Photo \<Rightarrow> Photo \<Rightarrow> rat" where
  "byPriorityThenHeight a b =
     (if num_or (priority a) 0 \<noteq> num_or (priority b) 0
      then num_or (priority b) 0 - num_or (priority a) 0
      else (let aSize = getRotatedDimensions a; bSize = getRotatedDimensions b
            in snd bSize - snd aSize))"

text \<open>The comparator of \<open>freeRectangles.sort\<close> in the Guillotine driver.\<close>

definition byAreaDesc :: "FreeRectangle \<Rightarrow> FreeRectangle \<Rightarrow> rat" where
  "byAreaDesc a b = width_r b * height_r b - width_r a * height_r a"

section \<open>Guillotine driver\<close>

record pack_state =
  packed :: "PackedPhoto list"
  currentPage :: nat
  freeRectangles :: "FreeRectangle list"

definition fits :: "rat \<Rightarrow> rat \<Rightarrow> FreeRectangle \<Rightarrow> bool" where
  "fits requiredWidth requiredHeight rect \<longleftrightarrow>
     requiredWidth \<le> width_r rect \<and> requiredHeight \<le> height_r rect"

text \<open>The scan \<open>for (let i = 0; i < freeRectangles.length; i++)\<close> up to its \<open>break\<close>:
  the index of the first rectangle that fits.\<close>

fun firstFit :: "rat \<Rightarrow> rat \<Rightarrow> FreeRectangle list \<Rightarrow> nat option" where
  "firstFit rw rh [] = None"
| "firstFit rw rh (rect # rects) =
     (if fits rw rh rect then Some 0 else map_option Suc (firstFit rw rh rects))"

text \<open>\<open>newRects\<close> of the Guillotine driver: the right strip has the height of the
  placed item, the bottom strip the width of the host.\<close>

definition guillotineSplit :: "FreeRectangle \<Rightarrow> rat \<Rightarrow> rat \<Rightarrow> FreeRectangle list" where
  "guillotineSplit rect requiredWidth requiredHeight =
     (if width_r rect > requiredWidth
      then [\<lparr> x_r = x_r rect + requiredWidth, y_r = y_r rect,
              width_r = width_r rect - requiredWidth, height_r = requiredHeight \<rparr>]
      else []) @
     (if height_r rect > requiredHeight
      then [\<lparr> x_r = x_r rect, y_r = y_r rect + requiredHeight,
              width_r = width_r rect, height_r = height_r rect - requiredHeight \<rparr>]
      else [])"

text \<open>Placing \<open>photo\<close> into the free rectangle at index \<open>i\<close>.\<close>

definition guillotinePlace ::
  "Photo \<Rightarrow> rat \<Rightarrow> rat \<Rightarrow> nat \<Rightarrow> pack_state \<Rightarrow> pack_state" where
  "guillotinePlace photo rw rh i st =
     (let rect = freeRectangles st ! i
      in st\<lparr> packed := packed st @ [place photo (x_r rect) (y_r rect) (currentPage st)],
             freeRectangles :=
               sort_by byAreaDesc (splice1 i (freeRectangles st) @ guillotineSplit rect rw rh) \<rparr>)"

text \<open>One iteration of \<open>for (const photo of sortedPhotos)\<close>.\<close>

definition guillotineStep ::
  "PackingOptions \<Rightarrow> FreeRectangle \<Rightarrow> rat \<Rightarrow> pack_state \<Rightarrow> Photo \<Rightarrow> pack_state" where
  "guillotineStep options printable spacing' st photo =
     (let dims = getRotatedDimensions photo;
          requiredWidth = fst dims + spacing';
          requiredHeight = snd dims + spacing'
      in case firstFit requiredWidth requiredHeight (freeRectangles st) of
           Some i \<Rightarrow> guillotinePlace photo requiredWidth requiredHeight i st
         | None \<Rightarrow>
             if truthy (multiPage options)
             then (let st' = st\<lparr> currentPage := currentPage st + 1,
                                  freeRectangles := [printable] \<rparr>
                   in if fits requiredWidth requiredHeight printable
                      then guillotinePlace photo requiredWidth requiredHeight 0 st'
                      else st')
             else st)"

definition packPhotosGuillotine :: "Photo list \<Rightarrow> PackingOptions \<Rightarrow> PackedPhoto list" where
  "packPhotosGuillotine photos options =
     (let printable = getPrintableArea options;
          spacing' = num_or (spacing options) 0;
          sortedPhotos = sort_by byPriorityThenArea photos
      in packed (foldl (guillotineStep options printable spacing')
                   \<lparr> packed = [], currentPage = 0, freeRectangles = [printable] \<rparr>
                   sortedPhotos))"

section \<open>Shelf driver\<close>

record shelf_state =
  packed_sh :: "PackedPhoto list"
  currentPage_sh :: nat
  currentY :: rat
  currentX :: rat
  shelfHeight :: rat

text \<open>The tail of the loop body: \<open>packed.push\<close>, then the cursor update.\<close>

definition shelfPlace :: "Photo \<Rightarrow> rat \<Rightarrow> rat \<Rightarrow> shelf_state \<Rightarrow> shelf_state" where
  "shelfPlace photo requiredWidth requiredHeight st =
     st\<lparr> packed_sh :=
            packed_sh st @ [place photo (currentX st) (currentY st) (currentPage_sh st)],
          currentX := currentX st + requiredWidth,
          shelfHeight := max (shelfHeight st) requiredHeight \<rparr>"

text \<open>One iteration of \<open>for (const photo of sortedPhotos)\<close>; \<open>continue\<close> returns the
  state as the first \<open>if\<close> left it.\<close>

definition shelfStep ::
  "PackingOptions \<Rightarrow> FreeRectangle \<Rightarrow> rat \<Rightarrow> shelf_state \<Rightarrow> Photo \<Rightarrow> shelf_state" where
  "shelfStep options printable spacing' st photo =
     (let dims = getRotatedDimensions photo;
          requiredWidth = fst dims + spacing';
          requiredHeight = snd dims + spacing';
          st1 = (if currentX st + requiredWidth > x_r printable + width_r printable
                 then st\<lparr> currentY := currentY st + shelfHeight st,
                          currentX := x_r printable,
                          shelfHeight := 0 \<rparr>
                 else st)
      in if currentY st1 + requiredHeight > y_r printable + height_r printable
         then (if truthy (multiPage options)
               then shelfPlace photo requiredWidth requiredHeight
                      (st1\<lparr> currentPage_sh := currentPage_sh st1 + 1,
                            currentY := y_r printable,
                            currentX := x_r printable,
                            shelfHeight := 0 \<rparr>)
               else st1)
         else shelfPlace photo requiredWidth requiredHeight st1)"

definition packPhotosShelf :: "Photo list \<Rightarrow> PackingOptions \<Rightarrow> PackedPhoto list" where
  "packPhotosShelf photos options =
     (let printable = getPrintableArea options;
          spacing' = num_or (spacing options) 0;
          sortedPhotos = sort_by byPriorityThenHeight photos
      in packed_sh (foldl (shelfStep options printable spacing')
                      \<lparr> packed_sh = [], currentPage_sh = 0, currentY = y_r printable,
                        currentX = x_r printable, shelfHeight = 0 \<rparr>
                      sortedPhotos))"

section \<open>MaxRects driver\<close>

text \<open>
  The best-short-side-fit scan. \<open>bestRect\<close> is an object reference; the model keeps its
  index in \<open>freeRectangles\<close> (what \<open>indexOf(bestRect)\<close> returns later, every free rectangle
  being an object of its own). \<open>Infinity\<close> is \<open>None\<close> in \<open>bestShortSideFit\<close> and
  \<open>bestLongSideFit\<close>.
\<close>

record best_state =
  bestRect :: "nat option"
  bestShortSideFit :: "rat option"
  bestLongSideFit :: "rat option"

text \<open>\<open>v < best\<close> and \<open>v === best\<close> against a value that may be \<open>Infinity\<close>.\<close>

definition lt_inf :: "rat \<Rightarrow> rat option \<Rightarrow> bool" where
  "lt_inf v best = (case best of None \<Rightarrow> True | Some b \<Rightarrow> v < b)"

definition eq_inf :: "rat \<Rightarrow> rat option \<Rightarrow> bool" where
  "eq_inf v best = (case best of None \<Rightarrow> False | Some b \<Rightarrow> v = b)"

text \<open>The body of \<open>for (const rect of freeRectangles)\<close>, at index \<open>i\<close>.\<close>

definition bestStep ::
  "rat \<Rightarrow> rat \<Rightarrow> FreeRectangle list \<Rightarrow> best_state \<Rightarrow> nat \<Rightarrow> best_state" where
  "bestStep requiredWidth requiredHeight rects b i =
     (let rect = rects ! i
      in if fits requiredWidth requiredHeight rect
         then (let leftoverX = width_r rect - requiredWidth;
                   leftoverY = height_r rect - requiredHeight;
                   shortSideFit = min leftoverX leftoverY;
                   longSideFit = max leftoverX leftoverY
               in if lt_inf shortSideFit (bestShortSideFit b) \<or>
                     (eq_inf shortSideFit (bestShortSideFit b) \<and>
                      lt_inf longSideFit (bestLongSideFit b))
                  then \<lparr> bestRect = Some i, bestShortSideFit = Some shortSideFit,
                         bestLongSideFit = Some longSideFit \<rparr>
                  else b)
         else b)"

definition findBest :: "rat \<Rightarrow> rat \<Rightarrow> FreeRectangle list \<Rightarrow> nat option" where
  "findBest requiredWidth requiredHeight rects =
     bestRect (foldl (bestStep requiredWidth requiredHeight rects)
                 \<lparr> bestRect = None, bestShortSideFit = None, bestLongSideFit = None \<rparr>
                 [0..<length rects])"

text \<open>\<open>newRects\<close> of the MaxRects driver: the right strip has the full height of the
  host, the bottom strip its full width.\<close>

definition maxRectsSplit :: "FreeRectangle \<Rightarrow> rat \<Rightarrow> rat \<Rightarrow> FreeRectangle list" where
  "maxRectsSplit rect requiredWidth requiredHeight =
     (if width_r rect > requiredWidth
      then [\<lparr> x_r = x_r rect + requiredWidth, y_r = y_r rect,
              width_r = width_r rect - requiredWidth, height_r = height_r rect \<rparr>]
      else []) @
     (if height_r rect > requiredHeight
      then [\<lparr> x_r = x_r rect, y_r = y_r rect + requiredHeight,
              width_r = width_r rect, height_r = height_r rect - requiredHeight \<rparr>]
      else [])"

text \<open>The containment test used twice by the driver (not strict: equal rectangles
  contain each other).\<close>

definition containedIn :: "FreeRectangle \<Rightarrow> FreeRectangle \<Rightarrow> bool" where
  "containedIn a b \<longleftrightarrow>
     x_r a \<ge> x_r b \<and> y_r a \<ge> y_r b \<and>
     x_r a + width_r a \<le> x_r b + width_r b \<and>
     y_r a + height_r a \<le> y_r b + height_r b"

text \<open>\<open>for (const newRect of newRects)\<close>: push unless some rectangle already in the
  store (an earlier \<open>newRect\<close> included) contains it.\<close>

fun addNewRects :: "FreeRectangle list \<Rightarrow> FreeRectangle list \<Rightarrow> FreeRectangle list" where
  "addNewRects rects [] = rects"
| "addNewRects rects (newRect # newRects) =
     addNewRects (if list_ex (containedIn newRect) rects then rects else rects @ [newRect])
       newRects"

text \<open>
  \<open>for (let i = freeRectangles.length - 1; i >= 0; i--)\<close>: \<open>pruneFrom n\<close> runs the
  iterations \<open>i = n - 1, \<dots>, 0\<close>. The inner loop looks at \<open>j\<close> from the current last index
  down and removes index \<open>i\<close> at the first \<open>j \<noteq> i\<close> whose rectangle contains it. An
  iteration removes index \<open>i\<close> only, so \<open>i\<close> stays in range.
\<close>

fun pruneFrom :: "nat \<Rightarrow> FreeRectangle list \<Rightarrow> FreeRectangle list" where
  "pruneFrom 0 rects = rects"
| "pruneFrom (Suc i) rects =
     pruneFrom i
       (if list_ex (\<lambda>j. i \<noteq> j \<and> containedIn (rects ! i) (rects ! j))
             (rev [0..<length rects])
        then splice1 i rects else rects)"

definition pruneContained :: "FreeRectangle list \<Rightarrow> FreeRectangle list" where
  "pruneContained rects = pruneFrom (length rects) rects"

text \<open>The branch \<open>if (bestRect)\<close>, with \<open>i\<close> the index of \<open>bestRect\<close>.\<close>

definition maxRectsPlace ::
  "Photo \<Rightarrow> rat \<Rightarrow> rat \<Rightarrow> nat \<Rightarrow> pack_state \<Rightarrow> pack_state" where
  "maxRectsPlace photo rw rh i st =
     (let rect = freeRectangles st ! i
      in st\<lparr> packed := packed st @ [place photo (x_r rect) (y_r rect) (currentPage st)],
             freeRectangles :=
               pruneContained
                 (addNewRects (splice1 i (freeRectangles st)) (maxRectsSplit rect rw rh)) \<rparr>)"

text \<open>The retry on a new page: \<open>push(...newRects)\<close> with neither test nor pruning.\<close>

definition maxRectsPlaceFresh ::
  "Photo \<Rightarrow> rat \<Rightarrow> rat \<Rightarrow> pack_state \<Rightarrow> pack_state" where
  "maxRectsPlaceFresh photo rw rh st =
     (let rect = freeRectangles st ! 0
      in st\<lparr> packed := packed st @ [place photo (x_r rect) (y_r rect) (currentPage st)],
             freeRectangles := splice1 0 (freeRectangles st) @ maxRectsSplit rect rw rh \<rparr>)"

definition maxRectsStep ::
  "PackingOptions \<Rightarrow> FreeRectangle \<Rightarrow> rat \<Rightarrow> pack_state \<Rightarrow> Photo \<Rightarrow> pack_state" where
  "maxRectsStep options printable spacing' st photo =
     (let dims = getRotatedDimensions photo;
          requiredWidth = fst dims + spacing';
          requiredHeight = snd dims + spacing'
      in case findBest requiredWidth requiredHeight (freeRectangles st) of
           Some i \<Rightarrow> maxRectsPlace photo requiredWidth requiredHeight i st
         | None \<Rightarrow>
             if truthy (multiPage options)
             then (let st' = st\<lparr> currentPage := currentPage st + 1,
                                  freeRectangles := [printable] \<rparr>
                   in if fits requiredWidth requiredHeight printable
                      then maxRectsPlaceFresh photo requiredWidth requiredHeight st'
                      else st')
             else st)"

definition packPhotosMaxRects :: "Photo list \<Rightarrow> PackingOptions \<Rightarrow> PackedPhoto list" where
  "packPhotosMaxRects photos options =
     (let printable = getPrintableArea options;
          spacing' = num_or (spacing options) 0;
          sortedPhotos = sort_by byPriorityThenArea photos
      in packed (foldl (maxRectsStep options printable spacing')
                   \<lparr> packed = [], currentPage = 0, freeRectangles = [printable] \<rparr>
                   sortedPhotos))"

section \<open>Entry point\<close>

text \<open>
  The selector is the run-time string: the type \<open>PackingAlgorithm\<close> is erased, and the
  application passes \<open>layoutData.algorithm || "maxrects"\<close> from a loaded file.
\<close>

definition packPhotos :: "Photo list \<Rightarrow> string \<Rightarrow> PackingOptions \<Rightarrow> PackedPhoto list" where
  "packPhotos photos algorithm options =
     (if algorithm = ''guillotine'' then packPhotosGuillotine photos options
      else if algorithm = ''shelf'' then packPhotosShelf photos options
      else if algorithm = ''maxrects'' then packPhotosMaxRects photos options
      else packPhotosMaxRects photos options)"

text \<open>
  The result type of the specified interface \<open>pack\<close>: placements or a typed error.
  \<open>packPhotos\<close> has no \<open>throw\<close> and no error value, so its result is always on the right.
\<close>

datatype pack_error = InvalidGeometry | UnknownAlgorithm

definition pack :: "Photo list \<Rightarrow> PackingOptions \<Rightarrow> string \<Rightarrow> pack_error + PackedPhoto list" where
  "pack inputs config algorithm = Inr (packPhotos inputs algorithm config)"

section \<open>Expansion by quantity\<close>





section \<open>The properties of the specification, as predicates\<close>

text \<open>Valid inputs (specification, section 3): positive photo dimensions, a cardinal
  rotation; non-negative margins and spacing that leave a positive printable area.\<close>

definition valid_photo :: "Photo \<Rightarrow> bool" where
  "valid_photo photo \<longleftrightarrow>
     0 < width_s (size_p photo) \<and> 0 < height_s (size_p photo) \<and>
     (rotation photo = 0 \<or> rotation photo = 90 \<or> rotation photo = 180 \<or> rotation photo = 270)"

definition valid_options :: "PackingOptions \<Rightarrow> bool" where
  "valid_options options \<longleftrightarrow>
     0 \<le> num_or (marginTop options) 0 \<and> 0 \<le> num_or (marginRight options) 0 \<and>
     0 \<le> num_or (marginBottom options) 0 \<and> 0 \<le> num_or (marginLeft options) 0 \<and>
     0 \<le> num_or (spacing options) 0 \<and>
     0 < width_r (getPrintableArea options) \<and> 0 < height_r (getPrintableArea options)"

text \<open>The four inequalities of containment in the printable area.\<close>

definition insidePrintable :: "PackingOptions \<Rightarrow> PackedPhoto \<Rightarrow> bool" where
  "insidePrintable options p \<longleftrightarrow>
     x_p p \<ge> num_or (marginLeft options) 0 \<and>
     y_p p \<ge> num_or (marginTop options) 0 \<and>
     x_p p + fst (getRotatedDimensions p) \<le> paperWidth options - num_or (marginRight options) 0 \<and>
     y_p p + snd (getRotatedDimensions p) \<le> paperHeight options - num_or (marginBottom options) 0"

text \<open>Disjointness of the spacing-padded rectangles of two placements.\<close>

definition paddedDisjoint :: "rat \<Rightarrow> PackedPhoto \<Rightarrow> PackedPhoto \<Rightarrow> bool" where
  "paddedDisjoint spacing' a b \<longleftrightarrow>
     x_p a + fst (getRotatedDimensions a) + spacing' \<le> x_p b \<or>
     y_p a + snd (getRotatedDimensions a) + spacing' \<le> y_p b \<or>
     x_p b + fst (getRotatedDimensions b) + spacing' \<le> x_p a \<or>
     y_p b + snd (getRotatedDimensions b) + spacing' \<le> y_p a"

text \<open>The padded footprint of a placement, as a rectangle; a placement inside a
  rectangle (without its pad); two rectangles with disjoint interiors.\<close>

definition paddedRect :: "rat \<Rightarrow> PackedPhoto \<Rightarrow> FreeRectangle" where
  "paddedRect spacing' p =
     \<lparr> x_r = x_p p, y_r = y_p p,
       width_r = fst (getRotatedDimensions p) + spacing',
       height_r = snd (getRotatedDimensions p) + spacing' \<rparr>"

definition insideRect :: "FreeRectangle \<Rightarrow> PackedPhoto \<Rightarrow> bool" where
  "insideRect rect p \<longleftrightarrow>
     x_r rect \<le> x_p p \<and> y_r rect \<le> y_p p \<and>
     x_p p + fst (getRotatedDimensions p) \<le> x_r rect + width_r rect \<and>
     y_p p + snd (getRotatedDimensions p) \<le> y_r rect + height_r rect"

definition disjointRects :: "FreeRectangle \<Rightarrow> FreeRectangle \<Rightarrow> bool" where
  "disjointRects a b \<longleftrightarrow>
     x_r a + width_r a \<le> x_r b \<or> y_r a + height_r a \<le> y_r b \<or>
     x_r b + width_r b \<le> x_r a \<or> y_r b + height_r b \<le> y_r a"

text \<open>Non-overlap of a list of placements: any two at different positions that share a
  page have disjoint padded rectangles.\<close>

definition nonOverlapping :: "rat \<Rightarrow> PackedPhoto list \<Rightarrow> bool" where
  "nonOverlapping spacing' ps \<longleftrightarrow>
     (\<forall>i<length ps. \<forall>j<length ps.
        i \<noteq> j \<and> pageIndex (ps ! i) = pageIndex (ps ! j) \<longrightarrow>
        paddedDisjoint spacing' (ps ! i) (ps ! j))"

text \<open>The invariant of the Guillotine driver for non-overlap: the free rectangles are
  pairwise disjoint and disjoint from the padded placements of the current page, no
  placement is on a later page, and the placements do not overlap.\<close>

definition guillotineDisjoint :: "rat \<Rightarrow> pack_state \<Rightarrow> bool" where
  "guillotineDisjoint spacing' st \<longleftrightarrow>
     sorted_wrt disjointRects (freeRectangles st) \<and>
     (\<forall>p \<in> set (packed st). pageIndex p \<le> currentPage st) \<and>
     (\<forall>p \<in> set (packed st). pageIndex p = currentPage st \<longrightarrow>
        (\<forall>r \<in> set (freeRectangles st). disjointRects (paddedRect spacing' p) r)) \<and>
     nonOverlapping spacing' (packed st)"

text \<open>The invariant of the Shelf driver for non-overlap: a placement of the current
  page ends above the current shelf, or stands on it left of the cursor and is no taller
  than the shelf.\<close>

definition shelfDisjoint :: "rat \<Rightarrow> shelf_state \<Rightarrow> bool" where
  "shelfDisjoint spacing' st \<longleftrightarrow>
     0 \<le> shelfHeight st \<and>
     (\<forall>p \<in> set (packed_sh st). pageIndex p \<le> currentPage_sh st) \<and>
     (\<forall>p \<in> set (packed_sh st). pageIndex p = currentPage_sh st \<longrightarrow>
        y_p p + (snd (getRotatedDimensions p) + spacing') \<le> currentY st \<or>
        (y_p p = currentY st \<and>
         x_p p + (fst (getRotatedDimensions p) + spacing') \<le> currentX st \<and>
         snd (getRotatedDimensions p) + spacing' \<le> shelfHeight st)) \<and>
     nonOverlapping spacing' (packed_sh st)"

text \<open>The two scores of best-short-side-fit for a rectangle and required dimensions.\<close>

definition shortSideFit :: "rat \<Rightarrow> rat \<Rightarrow> FreeRectangle \<Rightarrow> rat" where
  "shortSideFit rw rh rect = min (width_r rect - rw) (height_r rect - rh)"

definition longSideFit :: "rat \<Rightarrow> rat \<Rightarrow> FreeRectangle \<Rightarrow> rat" where
  "longSideFit rw rh rect = max (width_r rect - rw) (height_r rect - rh)"

text \<open>The order of the MaxRects choice between the rectangles at indices \<open>i\<close> and \<open>j\<close>:
  smaller short-side fit, then smaller long-side fit, then lower index.\<close>

definition preferred :: "rat \<Rightarrow> rat \<Rightarrow> FreeRectangle list \<Rightarrow> nat \<Rightarrow> nat \<Rightarrow> bool" where
  "preferred rw rh rects i j \<longleftrightarrow>
     shortSideFit rw rh (rects ! i) < shortSideFit rw rh (rects ! j) \<or>
     (shortSideFit rw rh (rects ! i) = shortSideFit rw rh (rects ! j) \<and>
      (longSideFit rw rh (rects ! i) < longSideFit rw rh (rects ! j) \<or>
       (longSideFit rw rh (rects ! i) = longSideFit rw rh (rects ! j) \<and> i \<le> j)))"

text \<open>The state of the best-fit scan after the indices below \<open>n\<close>: nothing fitted so
  far, or the recorded index is the preferred one among the fitting ones.\<close>

definition scanned ::
  "rat \<Rightarrow> rat \<Rightarrow> FreeRectangle list \<Rightarrow> nat \<Rightarrow> best_state \<Rightarrow> bool" where
  "scanned rw rh rects n b \<longleftrightarrow>
     (bestRect b = None \<and> bestShortSideFit b = None \<and> bestLongSideFit b = None \<and>
      (\<forall>j<n. \<not> fits rw rh (rects ! j))) \<or>
     (\<exists>i<n. bestRect b = Some i \<and> fits rw rh (rects ! i) \<and>
        bestShortSideFit b = Some (shortSideFit rw rh (rects ! i)) \<and>
        bestLongSideFit b = Some (longSideFit rw rh (rects ! i)) \<and>
        (\<forall>j<n. fits rw rh (rects ! j) \<longrightarrow> preferred rw rh rects i j))"

text \<open>No free rectangle of the store is wider or taller than the printable area.\<close>

definition boundedBy :: "FreeRectangle \<Rightarrow> FreeRectangle list \<Rightarrow> bool" where
  "boundedBy printable rects \<longleftrightarrow>
     (\<forall>r \<in> set rects. width_r r \<le> width_r printable \<and> height_r r \<le> height_r printable)"

text \<open>An item fits an empty page: its padded dimensions fit the printable area.\<close>

definition fitsEmptyPage :: "PackingOptions \<Rightarrow> Photo \<Rightarrow> bool" where
  "fitsEmptyPage options photo \<longleftrightarrow>
     fits (fst (getRotatedDimensions photo) + num_or (spacing options) 0)
          (snd (getRotatedDimensions photo) + num_or (spacing options) 0)
          (getPrintableArea options)"


section \<open>Concrete inputs\<close>

text \<open>A photo with the given id, width, height, rotation and priority; and the options
  for a page of the given width and height with the same margin on its four sides, zero
  spacing and the given multiPage flag.\<close>

definition mkPhoto :: "rat \<Rightarrow> rat \<Rightarrow> rat \<Rightarrow> rat \<Rightarrow> rat option \<Rightarrow> Photo" where
  "mkPhoto i w h r pr =
     \<lparr> id_p = i, name_p = ''photo'', dataUrl = ''data:'',
       size_p = \<lparr> name_s = ''custom'', width_s = w, height_s = h \<rparr>,
       rotation = r, imgWidth = 100, imgHeight = 100, priority = pr, quantity = None \<rparr>"

definition mkOptions :: "rat \<Rightarrow> rat \<Rightarrow> rat \<Rightarrow> bool \<Rightarrow> PackingOptions" where
  "mkOptions w h m mp =
     \<lparr> paperWidth = w, paperHeight = h, marginTop = Some m, marginRight = Some m,
       marginBottom = Some m, marginLeft = Some m, spacing = Some 0, multiPage = Some mp \<rparr>"

section \<open>Facts about the sort\<close>

text \<open>The sort returns a permutation of its input (same set, same length, same count of every
  property), keeps every class of tied elements in input order, and puts an element that
  strictly precedes all others first.\<close>

lemma set_insert_by: "set (insert_by cmp v us) = insert v (set us)"
  by (induction us) auto

lemma set_sort_by: "set (sort_by cmp vs) = set vs"
  by (induction vs) (simp_all add: sort_by_def set_insert_by)

lemma length_insert_by: "length (insert_by cmp v us) = Suc (length us)"
  by (induction us) auto

lemma length_sort_by: "length (sort_by cmp vs) = length vs"
  by (induction vs) (simp_all add: sort_by_def length_insert_by)

lemma sort_by_Nil: "sort_by cmp [] = []"
  by (simp add: sort_by_def)

lemma sort_by_Cons: "sort_by cmp (v # vs) = insert_by cmp v (sort_by cmp vs)"
  by (simp add: sort_by_def)

lemma count_insert_by:
  "length (filter P (insert_by cmp v us)) = length (filter P (v # us))"
  by (induction us) auto

lemma count_sort_by: "length (filter P (sort_by cmp vs)) = length (filter P vs)"
  by (induction vs) (simp_all add: sort_by_Nil sort_by_Cons count_insert_by)

lemma filter_insert_by_out: "\<not> P v \<Longrightarrow> filter P (insert_by cmp v us) = filter P us"
  by (induction us) auto

lemma filter_insert_by_in:
  "P v \<Longrightarrow> \<forall>u \<in> set us. P u \<longrightarrow> cmp v u \<le> 0 \<Longrightarrow>
     filter P (insert_by cmp v us) = v # filter P us"
  by (induction us) auto

lemma filter_sort_by_stable:
  assumes "\<And>a b. P a \<Longrightarrow> P b \<Longrightarrow> cmp a b \<le> 0"
  shows "filter P (sort_by cmp vs) = filter P vs"
proof (induction vs)
  case Nil
  show ?case by (simp add: sort_by_def)
next
  case (Cons v vs)
  show ?case
  proof (cases "P v")
    case True
    then have "filter P (insert_by cmp v (sort_by cmp vs)) = v # filter P (sort_by cmp vs)"
      using assms by (intro filter_insert_by_in) auto
    with True Cons show ?thesis by (simp add: sort_by_Cons)
  next
    case False
    with Cons show ?thesis by (simp add: sort_by_Cons filter_insert_by_out)
  qed
qed

lemma sort_by_all_tied:
  assumes "\<And>a b. a \<in> set vs \<Longrightarrow> b \<in> set vs \<Longrightarrow> cmp a b \<le> 0"
  shows "sort_by cmp vs = vs"
proof -
  have "filter (\<lambda>v. v \<in> set vs) (sort_by cmp vs) = filter (\<lambda>v. v \<in> set vs) vs"
    by (rule filter_sort_by_stable) (use assms in auto)
  moreover have "filter (\<lambda>v. v \<in> set vs) (sort_by cmp vs) = sort_by cmp vs"
    by (simp add: set_sort_by)
  ultimately show ?thesis by simp
qed



text \<open>For a comparator that is total and transitive, \<open>sort_by\<close> returns a list in
  comparator order; with \<open>count_sort_by\<close> (a permutation) and \<open>filter_sort_by_stable\<close>
  this makes it the stable sort of the input.\<close>

lemma sorted_insert_by:
  assumes total: "\<And>a b. \<not> cmp a b \<le> 0 \<Longrightarrow> cmp b a \<le> 0"
    and trans: "\<And>a b c. cmp a b \<le> 0 \<Longrightarrow> cmp b c \<le> 0 \<Longrightarrow> cmp a c \<le> 0"
    and "sorted_wrt (\<lambda>a b. cmp a b \<le> 0) us"
  shows "sorted_wrt (\<lambda>a b. cmp a b \<le> 0) (insert_by cmp v us)"
  using assms(3)
proof (induction us)
  case Nil
  show ?case by simp
next
  case (Cons u us)
  show ?case
  proof (cases "cmp v u \<le> 0")
    case True
    then have "\<forall>w \<in> set us. cmp v w \<le> 0"
      using Cons.prems trans by auto
    then show ?thesis using True Cons.prems by simp
  next
    case False
    then have "cmp u v \<le> 0" by (rule total)
    then show ?thesis
      using False Cons by (auto simp: set_insert_by)
  qed
qed

lemma sorted_sort_by:
  assumes "\<And>a b. \<not> cmp a b \<le> 0 \<Longrightarrow> cmp b a \<le> 0"
    and "\<And>a b c. cmp a b \<le> 0 \<Longrightarrow> cmp b c \<le> 0 \<Longrightarrow> cmp a c \<le> 0"
  shows "sorted_wrt (\<lambda>a b. cmp a b \<le> 0) (sort_by cmp vs)"
  by (induction vs) (simp_all add: sort_by_Nil sort_by_Cons sorted_insert_by [OF assms])

lemma byPriorityThenArea_le:
  "byPriorityThenArea a b \<le> 0 \<longleftrightarrow>
     num_or (priority b) 0 < num_or (priority a) 0 \<or>
     (num_or (priority a) 0 = num_or (priority b) 0 \<and>
      fst (getRotatedDimensions b) * snd (getRotatedDimensions b)
        \<le> fst (getRotatedDimensions a) * snd (getRotatedDimensions a))"
  by (auto simp: byPriorityThenArea_def Let_def)

lemma byPriorityThenHeight_le:
  "byPriorityThenHeight a b \<le> 0 \<longleftrightarrow>
     num_or (priority b) 0 < num_or (priority a) 0 \<or>
     (num_or (priority a) 0 = num_or (priority b) 0 \<and>
      snd (getRotatedDimensions b) \<le> snd (getRotatedDimensions a))"
  by (auto simp: byPriorityThenHeight_def Let_def)

lemma byAreaDesc_le:
  "byAreaDesc a b \<le> 0 \<longleftrightarrow> width_r b * height_r b \<le> width_r a * height_r a"
  by (simp add: byAreaDesc_def)

lemma sortedPhotos_in_order:
  "sorted_wrt (\<lambda>a b. byPriorityThenArea a b \<le> 0) (sort_by byPriorityThenArea photos)"
  "sorted_wrt (\<lambda>a b. byPriorityThenHeight a b \<le> 0) (sort_by byPriorityThenHeight photos)"
  "sorted_wrt (\<lambda>a b. byAreaDesc a b \<le> 0) (sort_by byAreaDesc rects)"
proof -
  show "sorted_wrt (\<lambda>a b. byPriorityThenArea a b \<le> 0) (sort_by byPriorityThenArea photos)"
    by (rule sorted_sort_by) (auto simp: byPriorityThenArea_le)
  show "sorted_wrt (\<lambda>a b. byPriorityThenHeight a b \<le> 0) (sort_by byPriorityThenHeight photos)"
    by (rule sorted_sort_by) (auto simp: byPriorityThenHeight_le)
  show "sorted_wrt (\<lambda>a b. byAreaDesc a b \<le> 0) (sort_by byAreaDesc rects)"
    by (rule sorted_sort_by) (auto simp: byAreaDesc_le)
qed

section \<open>Facts about the scans of the free rectangles\<close>

text \<open>What the first-fit scan of the Guillotine driver and the best-fit scan of the MaxRects
  driver return.\<close>

lemma firstFit_Some:
  "firstFit rw rh rects = Some i \<Longrightarrow> i < length rects \<and> fits rw rh (rects ! i)"
  by (induction rects arbitrary: i) (auto split: if_splits)

lemma firstFit_None: "firstFit rw rh rects = None \<longleftrightarrow> (\<forall>r \<in> set rects. \<not> fits rw rh r)"
  by (induction rects) auto

lemma scanned_init:
  "scanned rw rh rects 0 \<lparr> bestRect = None, bestShortSideFit = None, bestLongSideFit = None \<rparr>"
  by (simp add: scanned_def)

lemma bestStep_scores:
  "bestStep rw rh rects b n =
     (if fits rw rh (rects ! n)
      then (if lt_inf (shortSideFit rw rh (rects ! n)) (bestShortSideFit b) \<or>
               (eq_inf (shortSideFit rw rh (rects ! n)) (bestShortSideFit b) \<and>
                lt_inf (longSideFit rw rh (rects ! n)) (bestLongSideFit b))
            then \<lparr> bestRect = Some n,
                   bestShortSideFit = Some (shortSideFit rw rh (rects ! n)),
                   bestLongSideFit = Some (longSideFit rw rh (rects ! n)) \<rparr>
            else b)
      else b)"
  by (simp add: bestStep_def shortSideFit_def longSideFit_def Let_def)

lemma scanned_step:
  assumes "scanned rw rh rects n b"
  shows "scanned rw rh rects (Suc n) (bestStep rw rh rects b n)"
proof (cases "fits rw rh (rects ! n)")
  case False
  then have "bestStep rw rh rects b n = b" by (simp add: bestStep_scores)
  moreover have "scanned rw rh rects (Suc n) b"
    using assms False unfolding scanned_def
    by (metis less_Suc_eq)
  ultimately show ?thesis by simp
next
  case True
  let ?s = "shortSideFit rw rh (rects ! n)" and ?l = "longSideFit rw rh (rects ! n)"
  let ?new = "\<lparr> bestRect = Some n, bestShortSideFit = Some ?s, bestLongSideFit = Some ?l \<rparr>"
  from assms have "(bestRect b = None \<and> bestShortSideFit b = None \<and> bestLongSideFit b = None \<and>
      (\<forall>j<n. \<not> fits rw rh (rects ! j))) \<or>
     (\<exists>i<n. bestRect b = Some i \<and> fits rw rh (rects ! i) \<and>
        bestShortSideFit b = Some (shortSideFit rw rh (rects ! i)) \<and>
        bestLongSideFit b = Some (longSideFit rw rh (rects ! i)) \<and>
        (\<forall>j<n. fits rw rh (rects ! j) \<longrightarrow> preferred rw rh rects i j))"
    by (simp only: scanned_def)
  then consider
    (none) "bestRect b = None" "bestShortSideFit b = None" "bestLongSideFit b = None"
      "\<forall>j<n. \<not> fits rw rh (rects ! j)"
  | (some) i where "i < n" "bestRect b = Some i" "fits rw rh (rects ! i)"
      "bestShortSideFit b = Some (shortSideFit rw rh (rects ! i))"
      "bestLongSideFit b = Some (longSideFit rw rh (rects ! i))"
      "\<forall>j<n. fits rw rh (rects ! j) \<longrightarrow> preferred rw rh rects i j"
    by (elim disjE exE conjE) simp_all
  then show ?thesis
  proof cases
    case none
    then have "bestStep rw rh rects b n = ?new"
      using True by (simp add: bestStep_scores lt_inf_def)
    moreover have "scanned rw rh rects (Suc n) ?new"
      unfolding scanned_def using none(4) True
      by (auto simp: preferred_def less_Suc_eq)
    ultimately show ?thesis by simp
  next
    case some
    show ?thesis
    proof (cases "?s < shortSideFit rw rh (rects ! i) \<or>
                  (?s = shortSideFit rw rh (rects ! i) \<and> ?l < longSideFit rw rh (rects ! i))")
      case better: True
      then have "bestStep rw rh rects b n = ?new"
        using True some(4,5)
        by (auto simp: bestStep_scores lt_inf_def eq_inf_def)
      moreover have "preferred rw rh rects n j" if "j < Suc n" "fits rw rh (rects ! j)" for j
      proof (cases "j = n")
        case True
        then show ?thesis by (simp add: preferred_def)
      next
        case False
        with that have "preferred rw rh rects i j" using some(6) by simp
        with better show ?thesis unfolding preferred_def by auto
      qed
      ultimately show ?thesis
        unfolding scanned_def using True by auto
    next
      case worse: False
      then have "bestStep rw rh rects b n = b"
        using True some(4,5)
        by (auto simp: bestStep_scores lt_inf_def eq_inf_def)
      moreover have "preferred rw rh rects i j" if "j < Suc n" "fits rw rh (rects ! j)" for j
      proof (cases "j = n")
        case True
        with worse some(1) show ?thesis unfolding preferred_def by auto
      next
        case False
        with that show ?thesis using some(6) by simp
      qed
      ultimately show ?thesis
        unfolding scanned_def using some by (auto simp: less_Suc_eq)
    qed
  qed
qed

lemma scanned_foldl:
  "scanned rw rh rects n
     (foldl (bestStep rw rh rects)
        \<lparr> bestRect = None, bestShortSideFit = None, bestLongSideFit = None \<rparr> [0..<n])"
  by (induction n) (simp_all add: scanned_init scanned_step)

lemma findBest_Some:
  assumes "findBest rw rh rects = Some i"
  shows "i < length rects \<and> fits rw rh (rects ! i) \<and>
         (\<forall>j<length rects. fits rw rh (rects ! j) \<longrightarrow> preferred rw rh rects i j)"
  using scanned_foldl [of rw rh rects "length rects"] assms
  unfolding scanned_def findBest_def by auto

lemma findBest_None:
  "findBest rw rh rects = None \<longleftrightarrow> (\<forall>r \<in> set rects. \<not> fits rw rh r)"
proof
  assume "findBest rw rh rects = None"
  then have "\<forall>j<length rects. \<not> fits rw rh (rects ! j)"
    using scanned_foldl [of rw rh rects "length rects"]
    unfolding scanned_def findBest_def by auto
  then show "\<forall>r \<in> set rects. \<not> fits rw rh r"
    by (auto simp: in_set_conv_nth)
next
  assume none: "\<forall>r \<in> set rects. \<not> fits rw rh r"
  show "findBest rw rh rects = None"
  proof (cases "findBest rw rh rects")
    case None
    then show ?thesis .
  next
    case (Some i)
    then have "i < length rects \<and> fits rw rh (rects ! i)"
      using findBest_Some by blast
    with none show ?thesis by (metis nth_mem)
  qed
qed

section \<open>Facts about the free-rectangle drivers\<close>

text \<open>Splitting, removing and re-sorting never produce a free rectangle wider or taller than
  the printable area, so an item that fits some free rectangle fits the empty page.\<close>

lemma truncate_place: "Photo.truncate (place photo px py pg) = photo"
  by (simp add: place_def Photo.truncate_def)

lemma set_splice1: "set (splice1 i vs) \<subseteq> set vs"
  unfolding splice1_def by (auto dest: in_set_takeD in_set_dropD)

lemma boundedBy_single: "boundedBy printable [printable]"
  by (simp add: boundedBy_def)

lemma guillotineSplit_bounded:
  assumes "0 \<le> rw" "0 \<le> rh" "fits rw rh rect"
    and "width_r rect \<le> width_r printable" "height_r rect \<le> height_r printable"
  shows "boundedBy printable (guillotineSplit rect rw rh)"
  using assms by (auto simp: boundedBy_def guillotineSplit_def fits_def)

lemma maxRectsSplit_bounded:
  assumes "0 \<le> rw" "0 \<le> rh"
    and "width_r rect \<le> width_r printable" "height_r rect \<le> height_r printable"
  shows "boundedBy printable (maxRectsSplit rect rw rh)"
  using assms by (auto simp: boundedBy_def maxRectsSplit_def)

lemma boundedBy_append:
  "boundedBy printable (us @ vs) \<longleftrightarrow> boundedBy printable us \<and> boundedBy printable vs"
  by (auto simp: boundedBy_def)

lemma boundedBy_sort_by: "boundedBy printable (sort_by cmp vs) \<longleftrightarrow> boundedBy printable vs"
  by (simp add: boundedBy_def set_sort_by)

lemma boundedBy_subset:
  "set us \<subseteq> set vs \<Longrightarrow> boundedBy printable vs \<Longrightarrow> boundedBy printable us"
  by (auto simp: boundedBy_def)

lemma boundedBy_nth:
  "boundedBy printable rects \<Longrightarrow> i < length rects \<Longrightarrow>
     width_r (rects ! i) \<le> width_r printable \<and> height_r (rects ! i) \<le> height_r printable"
  by (simp add: boundedBy_def)

lemma boundedBy_fits:
  "boundedBy printable rects \<Longrightarrow> i < length rects \<Longrightarrow> fits rw rh (rects ! i) \<Longrightarrow>
     fits rw rh printable"
  using boundedBy_nth [of printable rects i] by (auto simp: fits_def)

lemma guillotinePlace_packed:
  "packed (guillotinePlace photo rw rh i st) =
     packed st @ [place photo (x_r (freeRectangles st ! i)) (y_r (freeRectangles st ! i))
                    (currentPage st)]"
  by (simp add: guillotinePlace_def Let_def)


lemma guillotinePlace_bounded:
  assumes "boundedBy printable (freeRectangles st)" "i < length (freeRectangles st)"
    and "fits rw rh (freeRectangles st ! i)" "0 \<le> rw" "0 \<le> rh"
  shows "boundedBy printable (freeRectangles (guillotinePlace photo rw rh i st))"
proof -
  have nth: "width_r (freeRectangles st ! i) \<le> width_r printable"
    "height_r (freeRectangles st ! i) \<le> height_r printable"
    using boundedBy_nth [OF assms(1,2)] by simp_all
  have "boundedBy printable (splice1 i (freeRectangles st))"
    by (rule boundedBy_subset [OF set_splice1 assms(1)])
  moreover have "boundedBy printable (guillotineSplit (freeRectangles st ! i) rw rh)"
    by (rule guillotineSplit_bounded [OF assms(4) assms(5) assms(3) nth])
  ultimately have "boundedBy printable
      (sort_by byAreaDesc (splice1 i (freeRectangles st) @
         guillotineSplit (freeRectangles st ! i) rw rh))"
    by (simp add: boundedBy_sort_by boundedBy_append)
  moreover have "freeRectangles (guillotinePlace photo rw rh i st) =
      sort_by byAreaDesc (splice1 i (freeRectangles st) @
         guillotineSplit (freeRectangles st ! i) rw rh)"
    by (simp add: guillotinePlace_def Let_def)
  ultimately show ?thesis by simp
qed


lemma guillotineStep_count:
  assumes inv: "boundedBy printable (freeRectangles st)"
    and mp: "truthy (multiPage options)"
    and pos: "0 \<le> fst (getRotatedDimensions photo) + sp" "0 \<le> snd (getRotatedDimensions photo) + sp"
  shows "boundedBy printable (freeRectangles (guillotineStep options printable sp st photo)) \<and>
         length (packed (guillotineStep options printable sp st photo)) =
           length (packed st) +
           (if fits (fst (getRotatedDimensions photo) + sp) (snd (getRotatedDimensions photo) + sp)
                 printable then 1 else 0)"
proof -
  let ?rw = "fst (getRotatedDimensions photo) + sp"
  let ?rh = "snd (getRotatedDimensions photo) + sp"
  show ?thesis
  proof (cases "firstFit ?rw ?rh (freeRectangles st)")
    case (Some i)
    then have i: "i < length (freeRectangles st)" "fits ?rw ?rh (freeRectangles st ! i)"
      using firstFit_Some by blast+
    have step: "guillotineStep options printable sp st photo = guillotinePlace photo ?rw ?rh i st"
      using Some by (simp add: guillotineStep_def Let_def)
    have "fits ?rw ?rh printable"
      using boundedBy_fits [OF inv i] .
    then show ?thesis
      using guillotinePlace_bounded [OF inv i pos] by (simp add: step guillotinePlace_packed)
  next
    case None
    let ?st' = "st\<lparr> currentPage := currentPage st + 1, freeRectangles := [printable] \<rparr>"
    show ?thesis
    proof (cases "fits ?rw ?rh printable")
      case True
      have step: "guillotineStep options printable sp st photo = guillotinePlace photo ?rw ?rh 0 ?st'"
        using None mp True by (simp add: guillotineStep_def Let_def)
      have "boundedBy printable (freeRectangles (guillotinePlace photo ?rw ?rh 0 ?st'))"
        using True pos by (intro guillotinePlace_bounded) (simp_all add: boundedBy_single)
      then show ?thesis using True by (simp add: step guillotinePlace_packed)
    next
      case False
      have step: "guillotineStep options printable sp st photo = ?st'"
        using None mp False by (simp add: guillotineStep_def Let_def)
      show ?thesis using False by (simp add: step boundedBy_single)
    qed
  qed
qed

lemma set_addNewRects: "set (addNewRects rects newRects) \<subseteq> set rects \<union> set newRects"
  by (induction rects newRects rule: addNewRects.induct) auto

lemma set_pruneFrom: "set (pruneFrom n rects) \<subseteq> set rects"
proof (induction n rects rule: pruneFrom.induct)
  case (1 rects)
  show ?case by simp
next
  case (2 i rects)
  then show ?case
    using set_splice1 [of i rects] by (auto split: if_splits)
qed

lemma set_pruneContained: "set (pruneContained rects) \<subseteq> set rects"
  by (simp add: pruneContained_def set_pruneFrom)

lemma maxRectsPlace_packed:
  "packed (maxRectsPlace photo rw rh i st) =
     packed st @ [place photo (x_r (freeRectangles st ! i)) (y_r (freeRectangles st ! i))
                    (currentPage st)]"
  by (simp add: maxRectsPlace_def Let_def)

lemma maxRectsPlaceFresh_packed:
  "packed (maxRectsPlaceFresh photo rw rh st) =
     packed st @ [place photo (x_r (freeRectangles st ! 0)) (y_r (freeRectangles st ! 0))
                    (currentPage st)]"
  by (simp add: maxRectsPlaceFresh_def Let_def)

lemma maxRectsPlace_bounded:
  assumes "boundedBy printable (freeRectangles st)" "i < length (freeRectangles st)"
    and "0 \<le> rw" "0 \<le> rh"
  shows "boundedBy printable (freeRectangles (maxRectsPlace photo rw rh i st))"
proof -
  have nth: "width_r (freeRectangles st ! i) \<le> width_r printable"
    "height_r (freeRectangles st ! i) \<le> height_r printable"
    using boundedBy_nth [OF assms(1,2)] by simp_all
  have "boundedBy printable (splice1 i (freeRectangles st))"
    by (rule boundedBy_subset [OF set_splice1 assms(1)])
  moreover have "boundedBy printable (maxRectsSplit (freeRectangles st ! i) rw rh)"
    by (rule maxRectsSplit_bounded [OF assms(3) assms(4) nth])
  ultimately have "boundedBy printable
      (splice1 i (freeRectangles st) @ maxRectsSplit (freeRectangles st ! i) rw rh)"
    by (simp add: boundedBy_append)
  then have "boundedBy printable
      (addNewRects (splice1 i (freeRectangles st)) (maxRectsSplit (freeRectangles st ! i) rw rh))"
    by (rule boundedBy_subset [rotated]) (use set_addNewRects in simp)
  then have "boundedBy printable (pruneContained
      (addNewRects (splice1 i (freeRectangles st)) (maxRectsSplit (freeRectangles st ! i) rw rh)))"
    by (rule boundedBy_subset [OF set_pruneContained])
  moreover have "freeRectangles (maxRectsPlace photo rw rh i st) = pruneContained
      (addNewRects (splice1 i (freeRectangles st)) (maxRectsSplit (freeRectangles st ! i) rw rh))"
    by (simp add: maxRectsPlace_def Let_def)
  ultimately show ?thesis by simp
qed

lemma maxRectsPlaceFresh_bounded:
  assumes "0 \<le> rw" "0 \<le> rh"
  shows "boundedBy printable (freeRectangles (maxRectsPlaceFresh photo rw rh
           (st\<lparr> currentPage := pg, freeRectangles := [printable] \<rparr>)))"
proof -
  have "boundedBy printable (maxRectsSplit printable rw rh)"
    by (rule maxRectsSplit_bounded [OF assms]) simp_all
  then show ?thesis
    by (simp add: maxRectsPlaceFresh_def Let_def splice1_def)
qed

lemma maxRectsStep_count:
  assumes inv: "boundedBy printable (freeRectangles st)"
    and mp: "truthy (multiPage options)"
    and pos: "0 \<le> fst (getRotatedDimensions photo) + sp" "0 \<le> snd (getRotatedDimensions photo) + sp"
  shows "boundedBy printable (freeRectangles (maxRectsStep options printable sp st photo)) \<and>
         length (packed (maxRectsStep options printable sp st photo)) =
           length (packed st) +
           (if fits (fst (getRotatedDimensions photo) + sp) (snd (getRotatedDimensions photo) + sp)
                 printable then 1 else 0)"
proof -
  let ?rw = "fst (getRotatedDimensions photo) + sp"
  let ?rh = "snd (getRotatedDimensions photo) + sp"
  show ?thesis
  proof (cases "findBest ?rw ?rh (freeRectangles st)")
    case (Some i)
    then have i: "i < length (freeRectangles st)" "fits ?rw ?rh (freeRectangles st ! i)"
      using findBest_Some by blast+
    have step: "maxRectsStep options printable sp st photo = maxRectsPlace photo ?rw ?rh i st"
      using Some by (simp add: maxRectsStep_def Let_def)
    have "fits ?rw ?rh printable"
      using boundedBy_fits [OF inv i] .
    then show ?thesis
      using maxRectsPlace_bounded [OF inv i(1) pos] by (simp add: step maxRectsPlace_packed)
  next
    case None
    let ?st' = "st\<lparr> currentPage := currentPage st + 1, freeRectangles := [printable] \<rparr>"
    show ?thesis
    proof (cases "fits ?rw ?rh printable")
      case True
      have step: "maxRectsStep options printable sp st photo = maxRectsPlaceFresh photo ?rw ?rh ?st'"
        using None mp True by (simp add: maxRectsStep_def Let_def)
      have "boundedBy printable (freeRectangles (maxRectsPlaceFresh photo ?rw ?rh ?st'))"
        by (rule maxRectsPlaceFresh_bounded [OF pos])
      then show ?thesis using True by (simp add: step maxRectsPlaceFresh_packed)
    next
      case False
      have step: "maxRectsStep options printable sp st photo = ?st'"
        using None mp False by (simp add: maxRectsStep_def Let_def)
      show ?thesis using False by (simp add: step boundedBy_single)
    qed
  qed
qed

lemma shelfPlace_packed:
  "packed_sh (shelfPlace photo rw rh st) =
     packed_sh st @ [place photo (currentX st) (currentY st) (currentPage_sh st)]"
  by (simp add: shelfPlace_def)

lemma shelfStep_count:
  assumes "truthy (multiPage options)"
  shows "length (packed_sh (shelfStep options printable sp st photo)) = length (packed_sh st) + 1"
  using assms by (simp add: shelfStep_def Let_def shelfPlace_packed)

section \<open>Counting the placements with multiPage\<close>

text \<open>With multiPage enabled, the Guillotine and MaxRects drivers place exactly the items that
  fit the empty page, and the Shelf driver places every item.\<close>

lemma valid_photo_dims:
  "valid_photo photo \<Longrightarrow>
     0 < fst (getRotatedDimensions photo) \<and> 0 < snd (getRotatedDimensions photo)"
  by (auto simp: valid_photo_def getRotatedDimensions_def)

lemma fitsEmptyPage_fun:
  "fitsEmptyPage options =
     (\<lambda>photo. fits (fst (getRotatedDimensions photo) + num_or (spacing options) 0)
                   (snd (getRotatedDimensions photo) + num_or (spacing options) 0)
                   (getPrintableArea options))"
  by (rule ext) (simp add: fitsEmptyPage_def)

lemma guillotine_foldl_count:
  assumes "truthy (multiPage options)"
    and "boundedBy printable (freeRectangles st)"
    and "\<forall>photo \<in> set photos. 0 \<le> fst (getRotatedDimensions photo) + sp \<and>
                               0 \<le> snd (getRotatedDimensions photo) + sp"
  shows "length (packed (foldl (guillotineStep options printable sp) st photos)) =
           length (packed st) +
           length (filter (\<lambda>photo. fits (fst (getRotatedDimensions photo) + sp)
                                      (snd (getRotatedDimensions photo) + sp) printable) photos)"
  using assms(2,3)
proof (induction photos arbitrary: st)
  case Nil
  show ?case by simp
next
  case (Cons photo photos)
  have pos: "0 \<le> fst (getRotatedDimensions photo) + sp" "0 \<le> snd (getRotatedDimensions photo) + sp"
    using Cons.prems(2) by simp_all
  note step = guillotineStep_count [OF Cons.prems(1) assms(1) pos]
  have "length (packed (foldl (guillotineStep options printable sp)
                  (guillotineStep options printable sp st photo) photos)) =
        length (packed (guillotineStep options printable sp st photo)) +
        length (filter (\<lambda>photo. fits (fst (getRotatedDimensions photo) + sp)
                                   (snd (getRotatedDimensions photo) + sp) printable) photos)"
    using step Cons.prems(2) by (intro Cons.IH) simp_all
  then show ?case using step by simp
qed

lemma maxRects_foldl_count:
  assumes "truthy (multiPage options)"
    and "boundedBy printable (freeRectangles st)"
    and "\<forall>photo \<in> set photos. 0 \<le> fst (getRotatedDimensions photo) + sp \<and>
                               0 \<le> snd (getRotatedDimensions photo) + sp"
  shows "length (packed (foldl (maxRectsStep options printable sp) st photos)) =
           length (packed st) +
           length (filter (\<lambda>photo. fits (fst (getRotatedDimensions photo) + sp)
                                      (snd (getRotatedDimensions photo) + sp) printable) photos)"
  using assms(2,3)
proof (induction photos arbitrary: st)
  case Nil
  show ?case by simp
next
  case (Cons photo photos)
  have pos: "0 \<le> fst (getRotatedDimensions photo) + sp" "0 \<le> snd (getRotatedDimensions photo) + sp"
    using Cons.prems(2) by simp_all
  note step = maxRectsStep_count [OF Cons.prems(1) assms(1) pos]
  have "length (packed (foldl (maxRectsStep options printable sp)
                  (maxRectsStep options printable sp st photo) photos)) =
        length (packed (maxRectsStep options printable sp st photo)) +
        length (filter (\<lambda>photo. fits (fst (getRotatedDimensions photo) + sp)
                                   (snd (getRotatedDimensions photo) + sp) printable) photos)"
    using step Cons.prems(2) by (intro Cons.IH) simp_all
  then show ?case using step by simp
qed

lemma shelf_foldl_count:
  assumes "truthy (multiPage options)"
  shows "length (packed_sh (foldl (shelfStep options printable sp) st photos)) =
           length (packed_sh st) + length photos"
  by (induction photos arbitrary: st) (simp_all add: shelfStep_count [OF assms])

lemma padded_nonneg:
  assumes "valid_options options" "\<forall>photo \<in> set photos. valid_photo photo"
  shows "\<forall>photo \<in> set photos.
           0 \<le> fst (getRotatedDimensions photo) + num_or (spacing options) 0 \<and>
           0 \<le> snd (getRotatedDimensions photo) + num_or (spacing options) 0"
proof
  fix photo assume "photo \<in> set photos"
  then have "valid_photo photo" using assms(2) by simp
  from valid_photo_dims [OF this] assms(1)
  show "0 \<le> fst (getRotatedDimensions photo) + num_or (spacing options) 0 \<and>
        0 \<le> snd (getRotatedDimensions photo) + num_or (spacing options) 0"
    by (simp add: valid_options_def)
qed

lemma packPhotosGuillotine_count:
  assumes "valid_options options" "truthy (multiPage options)"
    and "\<forall>photo \<in> set photos. valid_photo photo"
  shows "length (packPhotosGuillotine photos options) =
           length (filter (fitsEmptyPage options) photos)"
proof -
  let ?sorted = "sort_by byPriorityThenArea photos"
  have "\<forall>photo \<in> set ?sorted.
           0 \<le> fst (getRotatedDimensions photo) + num_or (spacing options) 0 \<and>
           0 \<le> snd (getRotatedDimensions photo) + num_or (spacing options) 0"
    using padded_nonneg [OF assms(1,3)] by (simp add: set_sort_by)
  from guillotine_foldl_count [OF assms(2) _ this, of "getPrintableArea options"
      "\<lparr> packed = [], currentPage = 0, freeRectangles = [getPrintableArea options] \<rparr>"]
  have "length (packPhotosGuillotine photos options) =
          length (filter (fitsEmptyPage options) ?sorted)"
    by (simp add: packPhotosGuillotine_def Let_def boundedBy_single fitsEmptyPage_fun)
  then show ?thesis by (simp add: count_sort_by)
qed

lemma packPhotosMaxRects_count:
  assumes "valid_options options" "truthy (multiPage options)"
    and "\<forall>photo \<in> set photos. valid_photo photo"
  shows "length (packPhotosMaxRects photos options) =
           length (filter (fitsEmptyPage options) photos)"
proof -
  let ?sorted = "sort_by byPriorityThenArea photos"
  have "\<forall>photo \<in> set ?sorted.
           0 \<le> fst (getRotatedDimensions photo) + num_or (spacing options) 0 \<and>
           0 \<le> snd (getRotatedDimensions photo) + num_or (spacing options) 0"
    using padded_nonneg [OF assms(1,3)] by (simp add: set_sort_by)
  from maxRects_foldl_count [OF assms(2) _ this, of "getPrintableArea options"
      "\<lparr> packed = [], currentPage = 0, freeRectangles = [getPrintableArea options] \<rparr>"]
  have "length (packPhotosMaxRects photos options) =
          length (filter (fitsEmptyPage options) ?sorted)"
    by (simp add: packPhotosMaxRects_def Let_def boundedBy_single fitsEmptyPage_fun)
  then show ?thesis by (simp add: count_sort_by)
qed

lemma packPhotosShelf_count:
  assumes "truthy (multiPage options)"
  shows "length (packPhotosShelf photos options) = length photos"
  by (simp add: packPhotosShelf_def Let_def shelf_foldl_count [OF assms] length_sort_by)

lemma count_with_copy:
  "length (filter P (take n vs @ c # drop n vs)) =
     length (filter P vs) + (if P c then 1 else 0)"
proof -
  have "length (filter P vs) = length (filter P (take n vs @ drop n vs))"
    by simp
  also have "\<dots> = length (filter P (take n vs)) + length (filter P (drop n vs))"
    by (simp only: filter_append length_append)
  finally show ?thesis by simp
qed

section \<open>Items that do not fit the empty page\<close>

text \<open>While no item fits the printable area, the store stays the single printable rectangle
  and nothing is placed.\<close>

lemma guillotineStep_nofit:
  assumes "freeRectangles st = [printable]"
    and "\<not> fits (fst (getRotatedDimensions photo) + sp) (snd (getRotatedDimensions photo) + sp)
             printable"
  shows "packed (guillotineStep options printable sp st photo) = packed st \<and>
         freeRectangles (guillotineStep options printable sp st photo) = [printable]"
  using assms by (simp add: guillotineStep_def Let_def)

lemma maxRectsStep_nofit:
  assumes "freeRectangles st = [printable]"
    and "\<not> fits (fst (getRotatedDimensions photo) + sp) (snd (getRotatedDimensions photo) + sp)
             printable"
  shows "packed (maxRectsStep options printable sp st photo) = packed st \<and>
         freeRectangles (maxRectsStep options printable sp st photo) = [printable]"
proof -
  have "findBest (fst (getRotatedDimensions photo) + sp) (snd (getRotatedDimensions photo) + sp)
          (freeRectangles st) = None"
    using assms by (simp add: findBest_None)
  then show ?thesis using assms by (simp add: maxRectsStep_def Let_def)
qed

lemma guillotine_foldl_nofit:
  assumes "freeRectangles st = [printable]"
    and "\<forall>photo \<in> set photos.
           \<not> fits (fst (getRotatedDimensions photo) + sp) (snd (getRotatedDimensions photo) + sp)
               printable"
  shows "packed (foldl (guillotineStep options printable sp) st photos) = packed st"
  using assms
proof (induction photos arbitrary: st)
  case Nil
  show ?case by simp
next
  case (Cons photo photos)
  have step: "packed (guillotineStep options printable sp st photo) = packed st"
    "freeRectangles (guillotineStep options printable sp st photo) = [printable]"
    using guillotineStep_nofit [OF Cons.prems(1)] Cons.prems(2) by simp_all
  show ?case using Cons.IH [OF step(2)] Cons.prems(2) step(1) by simp
qed

lemma maxRects_foldl_nofit:
  assumes "freeRectangles st = [printable]"
    and "\<forall>photo \<in> set photos.
           \<not> fits (fst (getRotatedDimensions photo) + sp) (snd (getRotatedDimensions photo) + sp)
               printable"
  shows "packed (foldl (maxRectsStep options printable sp) st photos) = packed st"
  using assms
proof (induction photos arbitrary: st)
  case Nil
  show ?case by simp
next
  case (Cons photo photos)
  have step: "packed (maxRectsStep options printable sp st photo) = packed st"
    "freeRectangles (maxRectsStep options printable sp st photo) = [printable]"
    using maxRectsStep_nofit [OF Cons.prems(1)] Cons.prems(2) by simp_all
  show ?case using Cons.IH [OF step(2)] Cons.prems(2) step(1) by simp
qed

section \<open>What a step adds to the output\<close>





lemma guillotineStep_emits:
  "packed (guillotineStep options printable sp st photo) = packed st \<or>
   (\<exists>px py pg. packed (guillotineStep options printable sp st photo)
                  = packed st @ [place photo px py pg])"
  by (auto simp: guillotineStep_def Let_def guillotinePlace_packed split: option.splits)

lemma maxRectsStep_emits:
  "packed (maxRectsStep options printable sp st photo) = packed st \<or>
   (\<exists>px py pg. packed (maxRectsStep options printable sp st photo)
                  = packed st @ [place photo px py pg])"
  by (auto simp: maxRectsStep_def Let_def maxRectsPlace_packed maxRectsPlaceFresh_packed
        split: option.splits)

lemma shelfStep_emits:
  "packed_sh (shelfStep options printable sp st photo) = packed_sh st \<or>
   (\<exists>px py pg. packed_sh (shelfStep options printable sp st photo)
                  = packed_sh st @ [place photo px py pg])"
  by (auto simp: shelfStep_def Let_def shelfPlace_packed)

text \<open>A loop whose steps only push placements of the current photo: the output starts
  with what was there, and the photos of what was added are a subsequence of the inputs.\<close>

lemma foldl_emits:
  assumes "\<And>st photo. out (step st photo) = out st \<or>
                        (\<exists>px py pg. out (step st photo) = out st @ [place photo px py pg])"
  shows "\<exists>added. out (foldl step st photos) = out st @ added \<and>
                 subseq (map Photo.truncate added) photos"
proof (induction photos arbitrary: st)
  case Nil
  show ?case by simp
next
  case (Cons photo photos)
  obtain added where added: "out (foldl step (step st photo) photos) = out (step st photo) @ added"
    "subseq (map Photo.truncate added) photos"
    using Cons.IH by blast
  from assms [of st photo] show ?case
  proof
    assume "out (step st photo) = out st"
    then show ?thesis using added by (auto intro: subseq_Cons')
  next
    assume "\<exists>px py pg. out (step st photo) = out st @ [place photo px py pg]"
    then obtain px py pg where "out (step st photo) = out st @ [place photo px py pg]"
      by blast
    then have "out (foldl step st (photo # photos)) = out st @ (place photo px py pg # added)"
      using added(1) by simp
    moreover have "subseq (map Photo.truncate (place photo px py pg # added)) (photo # photos)"
      using added(2) by (simp add: truncate_place)
    ultimately show ?thesis by blast
  qed
qed





section \<open>Facts about the expansion loop\<close>





section \<open>Ties of the comparators\<close>

text \<open>Both comparators return 0 on equal priority and equal secondary key; the photos of the
  output are a subsequence of the sorted inputs.\<close>

lemma byPriorityThenArea_tie:
  assumes "num_or (priority a) 0 = num_or (priority b) 0"
    and "fst (getRotatedDimensions a) * snd (getRotatedDimensions a)
         = fst (getRotatedDimensions b) * snd (getRotatedDimensions b)"
  shows "byPriorityThenArea a b = 0"
  using assms by (simp add: byPriorityThenArea_def Let_def)

lemma byPriorityThenHeight_tie:
  assumes "num_or (priority a) 0 = num_or (priority b) 0"
    and "snd (getRotatedDimensions a) = snd (getRotatedDimensions b)"
  shows "byPriorityThenHeight a b = 0"
  using assms by (simp add: byPriorityThenHeight_def Let_def)

lemma packPhotosGuillotine_subseq:
  "subseq (map Photo.truncate (packPhotosGuillotine photos options))
     (sort_by byPriorityThenArea photos)"
  using foldl_emits [of packed "guillotineStep options (getPrintableArea options)
      (num_or (spacing options) 0)", OF guillotineStep_emits,
      of "\<lparr> packed = [], currentPage = 0, freeRectangles = [getPrintableArea options] \<rparr>"
         "sort_by byPriorityThenArea photos"]
  by (auto simp: packPhotosGuillotine_def Let_def)

lemma packPhotosMaxRects_subseq:
  "subseq (map Photo.truncate (packPhotosMaxRects photos options))
     (sort_by byPriorityThenArea photos)"
  using foldl_emits [of packed "maxRectsStep options (getPrintableArea options)
      (num_or (spacing options) 0)", OF maxRectsStep_emits,
      of "\<lparr> packed = [], currentPage = 0, freeRectangles = [getPrintableArea options] \<rparr>"
         "sort_by byPriorityThenArea photos"]
  by (auto simp: packPhotosMaxRects_def Let_def)

lemma packPhotosShelf_subseq:
  "subseq (map Photo.truncate (packPhotosShelf photos options))
     (sort_by byPriorityThenHeight photos)"
  using foldl_emits [of packed_sh "shelfStep options (getPrintableArea options)
      (num_or (spacing options) 0)", OF shelfStep_emits,
      of "\<lparr> packed_sh = [], currentPage_sh = 0, currentY = y_r (getPrintableArea options),
            currentX = x_r (getPrintableArea options), shelfHeight = 0 \<rparr>"
         "sort_by byPriorityThenHeight photos"]
  by (auto simp: packPhotosShelf_def Let_def)

section \<open>Containment: the invariant of the free-rectangle drivers\<close>

text \<open>Free rectangles stay inside the printable area, and an item placed at the origin of a
  free rectangle that it fits lies inside the printable area.\<close>

lemma place_fields:
  "x_p (place photo px py pg) = px" "y_p (place photo px py pg) = py"
  "pageIndex (place photo px py pg) = pg"
  "getRotatedDimensions (place photo px py pg) = getRotatedDimensions photo"
  by (simp_all add: place_def getRotatedDimensions_def)

lemma insidePrintable_insideRect:
  "insidePrintable options p \<longleftrightarrow> insideRect (getPrintableArea options) p"
  by (auto simp: insidePrintable_def insideRect_def getPrintableArea_def Let_def)

lemma containedIn_refl: "containedIn r r"
  by (simp add: containedIn_def)

lemma containedIn_trans: "containedIn a b \<Longrightarrow> containedIn b c \<Longrightarrow> containedIn a c"
  by (auto simp: containedIn_def)

lemma guillotineSplit_contained:
  assumes "0 \<le> rw" "0 \<le> rh" "fits rw rh rect"
  shows "\<forall>r \<in> set (guillotineSplit rect rw rh). containedIn r rect"
  using assms by (auto simp: guillotineSplit_def containedIn_def fits_def)

lemma maxRectsSplit_contained:
  assumes "0 \<le> rw" "0 \<le> rh"
  shows "\<forall>r \<in> set (maxRectsSplit rect rw rh). containedIn r rect"
  using assms by (auto simp: maxRectsSplit_def containedIn_def)

lemma place_inside:
  assumes "containedIn rect printable" "fits (fst (getRotatedDimensions photo) + sp)
      (snd (getRotatedDimensions photo) + sp) rect" "0 \<le> sp"
  shows "insideRect printable (place photo (x_r rect) (y_r rect) pg)"
  using assms by (auto simp: insideRect_def place_fields containedIn_def fits_def)

text \<open>The invariant of the two free-rectangle drivers for containment: every free
  rectangle and every placement lies in the printable area.\<close>

lemma guillotinePlace_inside:
  assumes free: "\<forall>r \<in> set (freeRectangles st). containedIn r printable"
    and out: "\<forall>p \<in> set (packed st). insideRect printable p"
    and i: "i < length (freeRectangles st)"
    and fit: "fits (fst (getRotatedDimensions photo) + sp) (snd (getRotatedDimensions photo) + sp)
               (freeRectangles st ! i)"
    and pos: "0 \<le> sp" "0 \<le> fst (getRotatedDimensions photo) + sp"
      "0 \<le> snd (getRotatedDimensions photo) + sp"
  shows "(\<forall>r \<in> set (freeRectangles (guillotinePlace photo
              (fst (getRotatedDimensions photo) + sp) (snd (getRotatedDimensions photo) + sp) i st)).
            containedIn r printable) \<and>
         (\<forall>p \<in> set (packed (guillotinePlace photo
              (fst (getRotatedDimensions photo) + sp) (snd (getRotatedDimensions photo) + sp) i st)).
            insideRect printable p)"
proof -
  let ?rw = "fst (getRotatedDimensions photo) + sp" and ?rh = "snd (getRotatedDimensions photo) + sp"
  let ?rect = "freeRectangles st ! i"
  have host: "containedIn ?rect printable"
    using free i by simp
  have "\<forall>r \<in> set (guillotineSplit ?rect ?rw ?rh). containedIn r printable"
    using guillotineSplit_contained [OF pos(2,3) fit] host containedIn_trans by blast
  moreover have "\<forall>r \<in> set (splice1 i (freeRectangles st)). containedIn r printable"
    using free set_splice1 [of i "freeRectangles st"] by blast
  ultimately have "\<forall>r \<in> set (sort_by byAreaDesc
      (splice1 i (freeRectangles st) @ guillotineSplit ?rect ?rw ?rh)). containedIn r printable"
    by (simp add: set_sort_by ball_Un)
  moreover have "insideRect printable (place photo (x_r ?rect) (y_r ?rect) (currentPage st))"
    by (rule place_inside [OF host fit pos(1)])
  ultimately show ?thesis
    using out by (simp add: guillotinePlace_def Let_def)
qed

lemma maxRectsPlace_inside:
  assumes free: "\<forall>r \<in> set (freeRectangles st). containedIn r printable"
    and out: "\<forall>p \<in> set (packed st). insideRect printable p"
    and i: "i < length (freeRectangles st)"
    and fit: "fits (fst (getRotatedDimensions photo) + sp) (snd (getRotatedDimensions photo) + sp)
               (freeRectangles st ! i)"
    and pos: "0 \<le> sp" "0 \<le> fst (getRotatedDimensions photo) + sp"
      "0 \<le> snd (getRotatedDimensions photo) + sp"
  shows "(\<forall>r \<in> set (freeRectangles (maxRectsPlace photo
              (fst (getRotatedDimensions photo) + sp) (snd (getRotatedDimensions photo) + sp) i st)).
            containedIn r printable) \<and>
         (\<forall>p \<in> set (packed (maxRectsPlace photo
              (fst (getRotatedDimensions photo) + sp) (snd (getRotatedDimensions photo) + sp) i st)).
            insideRect printable p)"
proof -
  let ?rw = "fst (getRotatedDimensions photo) + sp" and ?rh = "snd (getRotatedDimensions photo) + sp"
  let ?rect = "freeRectangles st ! i"
  let ?new = "pruneContained (addNewRects (splice1 i (freeRectangles st))
                (maxRectsSplit ?rect ?rw ?rh))"
  have host: "containedIn ?rect printable"
    using free i by simp
  have split: "\<forall>r \<in> set (maxRectsSplit ?rect ?rw ?rh). containedIn r printable"
    using maxRectsSplit_contained [OF pos(2,3)] host containedIn_trans by blast
  have rest: "\<forall>r \<in> set (splice1 i (freeRectangles st)). containedIn r printable"
    using free set_splice1 [of i "freeRectangles st"] by blast
  have "set ?new \<subseteq> set (splice1 i (freeRectangles st)) \<union> set (maxRectsSplit ?rect ?rw ?rh)"
    using set_pruneContained set_addNewRects by (rule subset_trans)
  then have "\<forall>r \<in> set ?new. containedIn r printable"
    using split rest by blast
  moreover have "insideRect printable (place photo (x_r ?rect) (y_r ?rect) (currentPage st))"
    by (rule place_inside [OF host fit pos(1)])
  ultimately show ?thesis
    using out by (simp add: maxRectsPlace_def Let_def)
qed

lemma foldl_invariant:
  assumes "Inv st" and "\<And>st v. v \<in> set vs \<Longrightarrow> Inv st \<Longrightarrow> Inv (step st v)"
  shows "Inv (foldl step st vs)"
  using assms by (induction vs arbitrary: st) simp_all

lemma guillotineStep_inside:
  assumes inv: "(\<forall>r \<in> set (freeRectangles st). containedIn r printable) \<and>
                (\<forall>p \<in> set (packed st). insideRect printable p)"
    and pos: "0 \<le> sp" "0 \<le> fst (getRotatedDimensions photo) + sp"
      "0 \<le> snd (getRotatedDimensions photo) + sp"
  shows "(\<forall>r \<in> set (freeRectangles (guillotineStep options printable sp st photo)).
            containedIn r printable) \<and>
         (\<forall>p \<in> set (packed (guillotineStep options printable sp st photo)).
            insideRect printable p)"
proof -
  let ?rw = "fst (getRotatedDimensions photo) + sp" and ?rh = "snd (getRotatedDimensions photo) + sp"
  from inv have free: "\<forall>r \<in> set (freeRectangles st). containedIn r printable"
    and out: "\<forall>p \<in> set (packed st). insideRect printable p" by simp_all
  show ?thesis
  proof (cases "firstFit ?rw ?rh (freeRectangles st)")
    case (Some i)
    then have i: "i < length (freeRectangles st)" "fits ?rw ?rh (freeRectangles st ! i)"
      using firstFit_Some by blast+
    have "guillotineStep options printable sp st photo = guillotinePlace photo ?rw ?rh i st"
      using Some by (simp add: guillotineStep_def Let_def)
    then show ?thesis
      using guillotinePlace_inside [OF free out i pos] by simp
  next
    case None
    let ?st' = "st\<lparr> currentPage := currentPage st + 1, freeRectangles := [printable] \<rparr>"
    have free': "\<forall>r \<in> set (freeRectangles ?st'). containedIn r printable"
      and out': "\<forall>p \<in> set (packed ?st'). insideRect printable p"
      using out by (simp_all add: containedIn_refl)
    show ?thesis
    proof (cases "truthy (multiPage options)")
      case False
      then have "guillotineStep options printable sp st photo = st"
        using None by (simp add: guillotineStep_def Let_def)
      then show ?thesis using inv by simp
    next
      case mp: True
      show ?thesis
      proof (cases "fits ?rw ?rh printable")
        case True
        have step: "guillotineStep options printable sp st photo
                = guillotinePlace photo ?rw ?rh 0 ?st'"
          using None mp True by (simp add: guillotineStep_def Let_def)
        have "0 < length (freeRectangles ?st')" "fits ?rw ?rh (freeRectangles ?st' ! 0)"
          using True by simp_all
        from guillotinePlace_inside [OF free' out' this pos] step show ?thesis
          by simp
      next
        case False
        have "guillotineStep options printable sp st photo = ?st'"
          using None mp False by (simp add: guillotineStep_def Let_def)
        then show ?thesis using free' out' by simp
      qed
    qed
  qed
qed

lemma maxRectsPlaceFresh_inside:
  assumes out: "\<forall>p \<in> set (packed st). insideRect printable p"
    and fit: "fits (fst (getRotatedDimensions photo) + sp) (snd (getRotatedDimensions photo) + sp)
               printable"
    and pos: "0 \<le> sp" "0 \<le> fst (getRotatedDimensions photo) + sp"
      "0 \<le> snd (getRotatedDimensions photo) + sp"
  shows "(\<forall>r \<in> set (freeRectangles (maxRectsPlaceFresh photo
              (fst (getRotatedDimensions photo) + sp) (snd (getRotatedDimensions photo) + sp)
              (st\<lparr> currentPage := pg, freeRectangles := [printable] \<rparr>))).
            containedIn r printable) \<and>
         (\<forall>p \<in> set (packed (maxRectsPlaceFresh photo
              (fst (getRotatedDimensions photo) + sp) (snd (getRotatedDimensions photo) + sp)
              (st\<lparr> currentPage := pg, freeRectangles := [printable] \<rparr>))).
            insideRect printable p)"
proof -
  have "insideRect printable (place photo (x_r printable) (y_r printable) pg)"
    by (rule place_inside [OF containedIn_refl fit pos(1)])
  then show ?thesis
    using out maxRectsSplit_contained [OF pos(2,3), of printable]
    by (simp add: maxRectsPlaceFresh_def Let_def splice1_def)
qed

lemma maxRectsStep_inside:
  assumes inv: "(\<forall>r \<in> set (freeRectangles st). containedIn r printable) \<and>
                (\<forall>p \<in> set (packed st). insideRect printable p)"
    and pos: "0 \<le> sp" "0 \<le> fst (getRotatedDimensions photo) + sp"
      "0 \<le> snd (getRotatedDimensions photo) + sp"
  shows "(\<forall>r \<in> set (freeRectangles (maxRectsStep options printable sp st photo)).
            containedIn r printable) \<and>
         (\<forall>p \<in> set (packed (maxRectsStep options printable sp st photo)).
            insideRect printable p)"
proof -
  let ?rw = "fst (getRotatedDimensions photo) + sp" and ?rh = "snd (getRotatedDimensions photo) + sp"
  from inv have free: "\<forall>r \<in> set (freeRectangles st). containedIn r printable"
    and out: "\<forall>p \<in> set (packed st). insideRect printable p" by simp_all
  show ?thesis
  proof (cases "findBest ?rw ?rh (freeRectangles st)")
    case (Some i)
    then have i: "i < length (freeRectangles st)" "fits ?rw ?rh (freeRectangles st ! i)"
      using findBest_Some by blast+
    have "maxRectsStep options printable sp st photo = maxRectsPlace photo ?rw ?rh i st"
      using Some by (simp add: maxRectsStep_def Let_def)
    then show ?thesis
      using maxRectsPlace_inside [OF free out i pos] by simp
  next
    case None
    let ?st' = "st\<lparr> currentPage := currentPage st + 1, freeRectangles := [printable] \<rparr>"
    show ?thesis
    proof (cases "truthy (multiPage options)")
      case False
      then have "maxRectsStep options printable sp st photo = st"
        using None by (simp add: maxRectsStep_def Let_def)
      then show ?thesis using inv by simp
    next
      case mp: True
      show ?thesis
      proof (cases "fits ?rw ?rh printable")
        case True
        have "maxRectsStep options printable sp st photo
                = maxRectsPlaceFresh photo ?rw ?rh ?st'"
          using None mp True by (simp add: maxRectsStep_def Let_def)
        with maxRectsPlaceFresh_inside [OF out True pos] show ?thesis
          by simp
      next
        case False
        have "maxRectsStep options printable sp st photo = ?st'"
          using None mp False by (simp add: maxRectsStep_def Let_def)
        then show ?thesis using out by (simp add: containedIn_refl)
      qed
    qed
  qed
qed

lemma valid_padded:
  assumes "valid_options options" "valid_photo photo"
  shows "0 \<le> num_or (spacing options) 0 \<and>
         0 \<le> fst (getRotatedDimensions photo) + num_or (spacing options) 0 \<and>
         0 \<le> snd (getRotatedDimensions photo) + num_or (spacing options) 0"
  using valid_photo_dims [OF assms(2)] assms(1) by (simp add: valid_options_def)

lemma packPhotosGuillotine_inside:
  assumes "valid_options options" "\<forall>photo \<in> set photos. valid_photo photo"
  shows "\<forall>p \<in> set (packPhotosGuillotine photos options). insidePrintable options p"
proof -
  let ?pr = "getPrintableArea options" and ?sp = "num_or (spacing options) 0"
  let ?Inv = "\<lambda>st :: pack_state. (\<forall>r \<in> set (freeRectangles st). containedIn r ?pr) \<and>
                    (\<forall>p \<in> set (packed st). insideRect ?pr p)"
  have "?Inv (foldl (guillotineStep options ?pr ?sp)
           \<lparr> packed = [], currentPage = 0, freeRectangles = [?pr] \<rparr>
           (sort_by byPriorityThenArea photos))"
  proof (rule foldl_invariant [where Inv = ?Inv])
    show "?Inv \<lparr> packed = [], currentPage = 0, freeRectangles = [?pr] \<rparr>"
      by (simp add: containedIn_refl)
  next
    fix st photo
    assume "photo \<in> set (sort_by byPriorityThenArea photos)" and inv: "?Inv st"
    then have "valid_photo photo" using assms(2) by (simp add: set_sort_by)
    from valid_padded [OF assms(1) this]
    show "?Inv (guillotineStep options ?pr ?sp st photo)"
      by (intro guillotineStep_inside [OF inv]) simp_all
  qed
  then show ?thesis
    by (simp add: packPhotosGuillotine_def Let_def insidePrintable_insideRect)
qed

lemma packPhotosMaxRects_inside:
  assumes "valid_options options" "\<forall>photo \<in> set photos. valid_photo photo"
  shows "\<forall>p \<in> set (packPhotosMaxRects photos options). insidePrintable options p"
proof -
  let ?pr = "getPrintableArea options" and ?sp = "num_or (spacing options) 0"
  let ?Inv = "\<lambda>st :: pack_state. (\<forall>r \<in> set (freeRectangles st). containedIn r ?pr) \<and>
                    (\<forall>p \<in> set (packed st). insideRect ?pr p)"
  have "?Inv (foldl (maxRectsStep options ?pr ?sp)
           \<lparr> packed = [], currentPage = 0, freeRectangles = [?pr] \<rparr>
           (sort_by byPriorityThenArea photos))"
  proof (rule foldl_invariant [where Inv = ?Inv])
    show "?Inv \<lparr> packed = [], currentPage = 0, freeRectangles = [?pr] \<rparr>"
      by (simp add: containedIn_refl)
  next
    fix st photo
    assume "photo \<in> set (sort_by byPriorityThenArea photos)" and inv: "?Inv st"
    then have "valid_photo photo" using assms(2) by (simp add: set_sort_by)
    from valid_padded [OF assms(1) this]
    show "?Inv (maxRectsStep options ?pr ?sp st photo)"
      by (intro maxRectsStep_inside [OF inv]) simp_all
  qed
  then show ?thesis
    by (simp add: packPhotosMaxRects_def Let_def insidePrintable_insideRect)
qed

section \<open>Containment: the Shelf driver when every item fits\<close>

text \<open>The cursor never leaves the printable area; an item that fits the empty page is placed
  where the two tests of the step have made room for it.\<close>

lemma shelfPlace_inside:
  assumes inv: "x_r printable \<le> currentX st" "y_r printable \<le> currentY st"
      "0 \<le> shelfHeight st" "\<forall>p \<in> set (packed_sh st). insideRect printable p"
    and room: "currentX st + (fst (getRotatedDimensions photo) + sp)
                 \<le> x_r printable + width_r printable"
      "currentY st + (snd (getRotatedDimensions photo) + sp)
                 \<le> y_r printable + height_r printable"
    and pos: "0 \<le> sp" "0 \<le> fst (getRotatedDimensions photo) + sp"
  shows "x_r printable \<le> currentX (shelfPlace photo (fst (getRotatedDimensions photo) + sp)
            (snd (getRotatedDimensions photo) + sp) st) \<and>
         y_r printable \<le> currentY (shelfPlace photo (fst (getRotatedDimensions photo) + sp)
            (snd (getRotatedDimensions photo) + sp) st) \<and>
         0 \<le> shelfHeight (shelfPlace photo (fst (getRotatedDimensions photo) + sp)
            (snd (getRotatedDimensions photo) + sp) st) \<and>
         (\<forall>p \<in> set (packed_sh (shelfPlace photo (fst (getRotatedDimensions photo) + sp)
            (snd (getRotatedDimensions photo) + sp) st)). insideRect printable p)"
proof -
  have "insideRect printable (place photo (currentX st) (currentY st) (currentPage_sh st))"
    using inv(1,2) room pos(1) by (simp add: insideRect_def place_fields)
  then show ?thesis
    using inv pos(2) by (simp add: shelfPlace_def)
qed

lemma shelfStep_inside:
  assumes inv: "x_r printable \<le> currentX st \<and> y_r printable \<le> currentY st \<and>
      0 \<le> shelfHeight st \<and> (\<forall>p \<in> set (packed_sh st). insideRect printable p)"
    and fit: "fits (fst (getRotatedDimensions photo) + sp) (snd (getRotatedDimensions photo) + sp)
                printable"
    and pos: "0 \<le> sp" "0 \<le> fst (getRotatedDimensions photo) + sp"
  shows "x_r printable \<le> currentX (shelfStep options printable sp st photo) \<and>
         y_r printable \<le> currentY (shelfStep options printable sp st photo) \<and>
         0 \<le> shelfHeight (shelfStep options printable sp st photo) \<and>
         (\<forall>p \<in> set (packed_sh (shelfStep options printable sp st photo)).
            insideRect printable p)"
proof -
  let ?rw = "fst (getRotatedDimensions photo) + sp" and ?rh = "snd (getRotatedDimensions photo) + sp"
  let ?st1 = "if currentX st + ?rw > x_r printable + width_r printable
              then st\<lparr> currentY := currentY st + shelfHeight st, currentX := x_r printable,
                       shelfHeight := 0 \<rparr>
              else st"
  let ?st2 = "?st1\<lparr> currentPage_sh := currentPage_sh ?st1 + 1, currentY := y_r printable,
                    currentX := x_r printable, shelfHeight := 0 \<rparr>"
  have inv1: "x_r printable \<le> currentX ?st1" "y_r printable \<le> currentY ?st1"
      "0 \<le> shelfHeight ?st1" "\<forall>p \<in> set (packed_sh ?st1). insideRect printable p"
    using inv by auto
  have roomx: "currentX ?st1 + ?rw \<le> x_r printable + width_r printable"
    using fit by (auto simp: fits_def)
  have inv2: "x_r printable \<le> currentX ?st2" "y_r printable \<le> currentY ?st2"
      "0 \<le> shelfHeight ?st2" "\<forall>p \<in> set (packed_sh ?st2). insideRect printable p"
    using inv1(4) by simp_all
  have room2: "currentX ?st2 + ?rw \<le> x_r printable + width_r printable"
      "currentY ?st2 + ?rh \<le> y_r printable + height_r printable"
    using fit by (simp_all add: fits_def)
  consider (skip) "shelfStep options printable sp st photo = ?st1"
    | (page) "shelfStep options printable sp st photo = shelfPlace photo ?rw ?rh ?st2"
    | (here) "currentY ?st1 + ?rh \<le> y_r printable + height_r printable"
        "shelfStep options printable sp st photo = shelfPlace photo ?rw ?rh ?st1"
    unfolding shelfStep_def Let_def by (cases "truthy (multiPage options)") force+
  then show ?thesis
  proof cases
    case skip
    then show ?thesis using inv1 by simp
  next
    case page
    from shelfPlace_inside [OF inv2 room2 pos] page show ?thesis by simp
  next
    case here
    from shelfPlace_inside [OF inv1 roomx here(1) pos] here(2) show ?thesis by simp
  qed
qed

lemma packPhotosShelf_inside:
  assumes "valid_options options" "\<forall>photo \<in> set photos. valid_photo photo"
    and "\<forall>photo \<in> set photos. fitsEmptyPage options photo"
  shows "\<forall>p \<in> set (packPhotosShelf photos options). insidePrintable options p"
proof -
  let ?pr = "getPrintableArea options" and ?sp = "num_or (spacing options) 0"
  let ?Inv = "\<lambda>st :: shelf_state. x_r ?pr \<le> currentX st \<and> y_r ?pr \<le> currentY st \<and>
      0 \<le> shelfHeight st \<and> (\<forall>p \<in> set (packed_sh st). insideRect ?pr p)"
  have "?Inv (foldl (shelfStep options ?pr ?sp)
           \<lparr> packed_sh = [], currentPage_sh = 0, currentY = y_r ?pr, currentX = x_r ?pr,
             shelfHeight = 0 \<rparr>
           (sort_by byPriorityThenHeight photos))"
  proof (rule foldl_invariant [where Inv = ?Inv])
    show "?Inv \<lparr> packed_sh = [], currentPage_sh = 0, currentY = y_r ?pr, currentX = x_r ?pr,
             shelfHeight = 0 \<rparr>"
      by simp
  next
    fix st photo
    assume mem: "photo \<in> set (sort_by byPriorityThenHeight photos)" and inv: "?Inv st"
    then have "valid_photo photo" using assms(2) by (simp add: set_sort_by)
    from valid_padded [OF assms(1) this]
    have pos: "0 \<le> ?sp" "0 \<le> fst (getRotatedDimensions photo) + ?sp" by simp_all
    have "fits (fst (getRotatedDimensions photo) + ?sp) (snd (getRotatedDimensions photo) + ?sp) ?pr"
      using mem assms(3) by (simp add: set_sort_by fitsEmptyPage_def)
    from shelfStep_inside [OF inv this pos]
    show "?Inv (shelfStep options ?pr ?sp st photo)" .
  qed
  then show ?thesis
    by (simp add: packPhotosShelf_def Let_def insidePrintable_insideRect)
qed

text \<open>Containment holds for the free-rectangle drivers, and for the Shelf driver when
  every item fits the empty page.\<close>

lemma placements_inside_printable:
  assumes "valid_options options" "\<forall>photo \<in> set photos. valid_photo photo"
    and "algorithm = ''shelf'' \<longrightarrow> (\<forall>photo \<in> set photos. fitsEmptyPage options photo)"
  shows "\<forall>p \<in> set (packPhotos photos algorithm options). insidePrintable options p"
  using packPhotosGuillotine_inside [OF assms(1,2)] packPhotosMaxRects_inside [OF assms(1,2)]
    packPhotosShelf_inside [OF assms(1,2)] assms(3)
  by (simp add: packPhotos_def)

section \<open>Non-overlap: rectangles\<close>

text \<open>Disjointness of rectangles is symmetric and passes to contained rectangles; the strips
  of a Guillotine split are disjoint from each other and from the padded item.\<close>

lemma disjointRects_sym: "disjointRects a b \<longleftrightarrow> disjointRects b a"
  by (auto simp: disjointRects_def)

lemma disjointRects_contained:
  "containedIn a h \<Longrightarrow> disjointRects b h \<Longrightarrow> disjointRects b a"
  by (auto simp: disjointRects_def containedIn_def)

lemma paddedDisjoint_rects:
  "paddedDisjoint sp a b \<longleftrightarrow> disjointRects (paddedRect sp a) (paddedRect sp b)"
  by (auto simp: paddedDisjoint_def disjointRects_def paddedRect_def)

lemma paddedRect_place:
  "paddedRect sp (place photo px py pg) =
     \<lparr> x_r = px, y_r = py, width_r = fst (getRotatedDimensions photo) + sp,
       height_r = snd (getRotatedDimensions photo) + sp \<rparr>"
  by (simp add: paddedRect_def place_fields)

lemma paddedRect_in_host:
  assumes "fits (fst (getRotatedDimensions photo) + sp) (snd (getRotatedDimensions photo) + sp) rect"
  shows "containedIn (paddedRect sp (place photo (x_r rect) (y_r rect) pg)) rect"
  using assms by (simp add: paddedRect_place containedIn_def fits_def)

lemma guillotineSplit_disjoint_item:
  "\<forall>r \<in> set (guillotineSplit rect (fst (getRotatedDimensions photo) + sp)
                  (snd (getRotatedDimensions photo) + sp)).
     disjointRects (paddedRect sp (place photo (x_r rect) (y_r rect) pg)) r"
  by (auto simp: guillotineSplit_def disjointRects_def paddedRect_place)

lemma guillotineSplit_pairwise:
  "sorted_wrt disjointRects (guillotineSplit rect rw rh)"
  by (auto simp: guillotineSplit_def disjointRects_def)

lemma sorted_wrt_insert_by:
  assumes "\<And>a b. P a b \<Longrightarrow> P b a"
  shows "sorted_wrt P (insert_by cmp v us) \<longleftrightarrow> sorted_wrt P (v # us)"
  using assms by (induction us) (auto simp: set_insert_by)

lemma sorted_wrt_sort_by:
  assumes "\<And>a b. P a b \<Longrightarrow> P b a"
  shows "sorted_wrt P (sort_by cmp vs) \<longleftrightarrow> sorted_wrt P vs"
  by (induction vs)
     (simp_all add: sort_by_Nil sort_by_Cons sorted_wrt_insert_by [of P, OF assms] set_sort_by)

lemma sorted_wrt_splice1:
  assumes "sorted_wrt P vs" "i < length vs" "\<And>a b. P a b \<Longrightarrow> P b a"
  shows "sorted_wrt P (splice1 i vs) \<and> (\<forall>v \<in> set (splice1 i vs). P (vs ! i) v)"
proof -
  have "vs = take i vs @ (vs ! i) # drop (Suc i) vs"
    using assms(2) by (rule id_take_nth_drop)
  then have "sorted_wrt P (take i vs @ (vs ! i) # drop (Suc i) vs)"
    using assms(1) by simp
  then show ?thesis
    unfolding splice1_def using assms(3) by (auto simp: sorted_wrt_append)
qed

section \<open>Non-overlap: the Guillotine driver\<close>

text \<open>The invariant \<open>guillotineDisjoint\<close> holds initially and is kept by every step.\<close>

lemma paddedDisjoint_sym: "paddedDisjoint sp a b \<longleftrightarrow> paddedDisjoint sp b a"
  by (auto simp: paddedDisjoint_def)

lemma nonOverlapping_Nil: "nonOverlapping sp []"
  by (simp add: nonOverlapping_def)

lemma nonOverlapping_snoc:
  assumes "nonOverlapping sp ps"
    and "\<forall>p \<in> set ps. pageIndex p = pageIndex q \<longrightarrow> paddedDisjoint sp p q"
  shows "nonOverlapping sp (ps @ [q])"
  unfolding nonOverlapping_def
proof (intro allI impI)
  fix i j
  assume i: "i < length (ps @ [q])" and j: "j < length (ps @ [q])"
    and ne: "i \<noteq> j \<and> pageIndex ((ps @ [q]) ! i) = pageIndex ((ps @ [q]) ! j)"
  consider (old) "i < length ps" "j < length ps"
    | (right) "i < length ps" "j = length ps"
    | (left) "i = length ps" "j < length ps"
    using i j ne by (auto simp: less_Suc_eq)
  then show "paddedDisjoint sp ((ps @ [q]) ! i) ((ps @ [q]) ! j)"
  proof cases
    case old
    then show ?thesis
      using assms(1) ne by (simp add: nonOverlapping_def nth_append)
  next
    case right
    then show ?thesis
      using assms(2) ne by (simp add: nth_append)
  next
    case left
    then have "paddedDisjoint sp (ps ! j) q"
      using assms(2) ne by (simp add: nth_append)
    then show ?thesis
      using left by (simp add: nth_append paddedDisjoint_sym)
  qed
qed

lemma guillotinePlace_disjoint:
  assumes inv: "guillotineDisjoint sp st"
    and i: "i < length (freeRectangles st)"
    and fit: "fits (fst (getRotatedDimensions photo) + sp) (snd (getRotatedDimensions photo) + sp)
               (freeRectangles st ! i)"
    and pos: "0 \<le> fst (getRotatedDimensions photo) + sp"
      "0 \<le> snd (getRotatedDimensions photo) + sp"
  shows "guillotineDisjoint sp (guillotinePlace photo (fst (getRotatedDimensions photo) + sp)
           (snd (getRotatedDimensions photo) + sp) i st)"
proof -
  let ?rw = "fst (getRotatedDimensions photo) + sp" and ?rh = "snd (getRotatedDimensions photo) + sp"
  let ?host = "freeRectangles st ! i"
  let ?q = "place photo (x_r ?host) (y_r ?host) (currentPage st)"
  let ?rest = "splice1 i (freeRectangles st)"
  let ?kids = "guillotineSplit ?host ?rw ?rh"
  from inv have free: "sorted_wrt disjointRects (freeRectangles st)"
    and pages: "\<forall>p \<in> set (packed st). pageIndex p \<le> currentPage st"
    and clear: "\<forall>p \<in> set (packed st). pageIndex p = currentPage st \<longrightarrow>
        (\<forall>r \<in> set (freeRectangles st). disjointRects (paddedRect sp p) r)"
    and out: "nonOverlapping sp (packed st)"
    by (simp_all add: guillotineDisjoint_def)
  have host_mem: "?host \<in> set (freeRectangles st)" using i by simp
  have rest: "sorted_wrt disjointRects ?rest" "\<forall>r \<in> set ?rest. disjointRects ?host r"
    using sorted_wrt_splice1 [OF free i] disjointRects_sym by blast+
  have rest_sub: "set ?rest \<subseteq> set (freeRectangles st)" by (rule set_splice1)
  have kids_in: "\<forall>k \<in> set ?kids. containedIn k ?host"
    by (rule guillotineSplit_contained [OF pos fit])
  have q_in: "containedIn (paddedRect sp ?q) ?host"
    by (rule paddedRect_in_host [OF fit])
  have cross: "\<forall>r \<in> set ?rest. \<forall>k \<in> set ?kids. disjointRects r k"
    using rest(2) kids_in disjointRects_contained disjointRects_sym by blast
  have free': "sorted_wrt disjointRects (sort_by byAreaDesc (?rest @ ?kids))"
    using rest(1) guillotineSplit_pairwise cross
    by (simp add: sorted_wrt_sort_by [of disjointRects] disjointRects_sym sorted_wrt_append)
  have set': "set (sort_by byAreaDesc (?rest @ ?kids)) = set ?rest \<union> set ?kids"
    by (simp add: set_sort_by)
  have old_clear: "disjointRects (paddedRect sp p) r"
    if "p \<in> set (packed st)" "pageIndex p = currentPage st" "r \<in> set ?rest \<union> set ?kids" for p r
  proof -
    have h: "disjointRects (paddedRect sp p) ?host" using clear that(1,2) host_mem by blast
    from that(3) show ?thesis
    proof
      assume "r \<in> set ?rest"
      then show ?thesis using clear that(1,2) rest_sub by blast
    next
      assume "r \<in> set ?kids"
      then show ?thesis using kids_in h disjointRects_contained by blast
    qed
  qed
  have new_clear: "disjointRects (paddedRect sp ?q) r" if "r \<in> set ?rest \<union> set ?kids" for r
    using that
  proof
    assume "r \<in> set ?rest"
    then have "disjointRects r ?host" using rest(2) disjointRects_sym by blast
    then have "disjointRects r (paddedRect sp ?q)"
      using q_in disjointRects_contained by blast
    then show ?thesis using disjointRects_sym by blast
  next
    assume "r \<in> set ?kids"
    then show ?thesis using guillotineSplit_disjoint_item [of ?host photo sp] by blast
  qed
  have "paddedDisjoint sp p ?q" if "p \<in> set (packed st)" "pageIndex p = pageIndex ?q" for p
  proof -
    have "disjointRects (paddedRect sp p) ?host"
      using clear that host_mem by (simp add: place_fields)
    then show ?thesis
      unfolding paddedDisjoint_rects using q_in disjointRects_contained by blast
  qed
  then have out': "nonOverlapping sp (packed st @ [?q])"
    using out by (intro nonOverlapping_snoc) auto
  have pages': "\<forall>p \<in> set (packed st @ [?q]). pageIndex p \<le> currentPage st"
    using pages by (simp add: place_fields)
  have clear': "\<forall>p \<in> set (packed st @ [?q]). pageIndex p = currentPage st \<longrightarrow>
        (\<forall>r \<in> set (sort_by byAreaDesc (?rest @ ?kids)). disjointRects (paddedRect sp p) r)"
    unfolding set' using old_clear new_clear by auto
  show ?thesis
    using free' pages' clear' out'
    by (simp add: guillotineDisjoint_def guillotinePlace_def Let_def)
qed

lemma guillotineDisjoint_turn:
  assumes "guillotineDisjoint sp st"
  shows "guillotineDisjoint sp (st\<lparr> currentPage := currentPage st + 1,
                                    freeRectangles := [printable] \<rparr>)"
proof -
  from assms have pages: "\<forall>p \<in> set (packed st). pageIndex p \<le> currentPage st"
    and out: "nonOverlapping sp (packed st)"
    by (simp_all add: guillotineDisjoint_def)
  have "\<forall>p \<in> set (packed st). pageIndex p \<noteq> currentPage st + 1"
    using pages by fastforce
  then show ?thesis
    using pages out by (auto simp: guillotineDisjoint_def)
qed

lemma guillotineStep_disjoint:
  assumes inv: "guillotineDisjoint sp st"
    and pos: "0 \<le> fst (getRotatedDimensions photo) + sp"
      "0 \<le> snd (getRotatedDimensions photo) + sp"
  shows "guillotineDisjoint sp (guillotineStep options printable sp st photo)"
proof -
  let ?rw = "fst (getRotatedDimensions photo) + sp" and ?rh = "snd (getRotatedDimensions photo) + sp"
  show ?thesis
  proof (cases "firstFit ?rw ?rh (freeRectangles st)")
    case (Some i)
    then have i: "i < length (freeRectangles st)" "fits ?rw ?rh (freeRectangles st ! i)"
      using firstFit_Some by blast+
    have "guillotineStep options printable sp st photo = guillotinePlace photo ?rw ?rh i st"
      using Some by (simp add: guillotineStep_def Let_def)
    then show ?thesis
      using guillotinePlace_disjoint [OF inv i pos] by simp
  next
    case None
    let ?st' = "st\<lparr> currentPage := currentPage st + 1, freeRectangles := [printable] \<rparr>"
    have inv': "guillotineDisjoint sp ?st'"
      by (rule guillotineDisjoint_turn [OF inv])
    show ?thesis
    proof (cases "truthy (multiPage options)")
      case False
      then have "guillotineStep options printable sp st photo = st"
        using None by (simp add: guillotineStep_def Let_def)
      then show ?thesis using inv by simp
    next
      case mp: True
      show ?thesis
      proof (cases "fits ?rw ?rh printable")
        case True
        have step: "guillotineStep options printable sp st photo
                = guillotinePlace photo ?rw ?rh 0 ?st'"
          using None mp True by (simp add: guillotineStep_def Let_def)
        have "0 < length (freeRectangles ?st')" "fits ?rw ?rh (freeRectangles ?st' ! 0)"
          using True by simp_all
        from guillotinePlace_disjoint [OF inv' this pos] step show ?thesis
          by simp
      next
        case False
        have "guillotineStep options printable sp st photo = ?st'"
          using None mp False by (simp add: guillotineStep_def Let_def)
        then show ?thesis using inv' by simp
      qed
    qed
  qed
qed

lemma packPhotosGuillotine_nonOverlapping:
  assumes "valid_options options" "\<forall>photo \<in> set photos. valid_photo photo"
  shows "nonOverlapping (num_or (spacing options) 0) (packPhotosGuillotine photos options)"
proof -
  let ?pr = "getPrintableArea options" and ?sp = "num_or (spacing options) 0"
  have "guillotineDisjoint ?sp (foldl (guillotineStep options ?pr ?sp)
           \<lparr> packed = [], currentPage = 0, freeRectangles = [?pr] \<rparr>
           (sort_by byPriorityThenArea photos))"
  proof (rule foldl_invariant [where Inv = "guillotineDisjoint ?sp"])
    show "guillotineDisjoint ?sp \<lparr> packed = [], currentPage = 0, freeRectangles = [?pr] \<rparr>"
      by (simp add: guillotineDisjoint_def nonOverlapping_Nil)
  next
    fix st photo
    assume "photo \<in> set (sort_by byPriorityThenArea photos)" and inv: "guillotineDisjoint ?sp st"
    then have "valid_photo photo" using assms(2) by (simp add: set_sort_by)
    from valid_padded [OF assms(1) this]
    show "guillotineDisjoint ?sp (guillotineStep options ?pr ?sp st photo)"
      by (intro guillotineStep_disjoint [OF inv]) simp_all
  qed
  then show ?thesis
    by (simp add: packPhotosGuillotine_def Let_def guillotineDisjoint_def)
qed

section \<open>Non-overlap: the Shelf driver\<close>

text \<open>The invariant \<open>shelfDisjoint\<close> holds initially and is kept by every step.\<close>

lemma shelfPlace_disjoint:
  assumes inv: "shelfDisjoint sp st"
    and pos: "0 \<le> fst (getRotatedDimensions photo) + sp"
  shows "shelfDisjoint sp (shelfPlace photo (fst (getRotatedDimensions photo) + sp)
           (snd (getRotatedDimensions photo) + sp) st)"
proof -
  let ?rw = "fst (getRotatedDimensions photo) + sp" and ?rh = "snd (getRotatedDimensions photo) + sp"
  let ?q = "place photo (currentX st) (currentY st) (currentPage_sh st)"
  from inv have height: "0 \<le> shelfHeight st"
    and pages: "\<forall>p \<in> set (packed_sh st). pageIndex p \<le> currentPage_sh st"
    and shelf: "\<forall>p \<in> set (packed_sh st). pageIndex p = currentPage_sh st \<longrightarrow>
        y_p p + (snd (getRotatedDimensions p) + sp) \<le> currentY st \<or>
        (y_p p = currentY st \<and>
         x_p p + (fst (getRotatedDimensions p) + sp) \<le> currentX st \<and>
         snd (getRotatedDimensions p) + sp \<le> shelfHeight st)"
    and out: "nonOverlapping sp (packed_sh st)"
    by (simp_all add: shelfDisjoint_def)
  have "paddedDisjoint sp p ?q" if "p \<in> set (packed_sh st)" "pageIndex p = pageIndex ?q" for p
  proof -
    have "y_p p + (snd (getRotatedDimensions p) + sp) \<le> currentY st \<or>
          x_p p + (fst (getRotatedDimensions p) + sp) \<le> currentX st"
      using shelf that by (auto simp: place_fields)
    then show ?thesis
      by (auto simp: paddedDisjoint_def place_fields)
  qed
  then have out': "nonOverlapping sp (packed_sh st @ [?q])"
    using out by (intro nonOverlapping_snoc) auto
  have shelf': "y_p p + (snd (getRotatedDimensions p) + sp) \<le> currentY st \<or>
        (y_p p = currentY st \<and>
         x_p p + (fst (getRotatedDimensions p) + sp) \<le> currentX st + ?rw \<and>
         snd (getRotatedDimensions p) + sp \<le> max (shelfHeight st) ?rh)"
    if "p \<in> set (packed_sh st @ [?q])" "pageIndex p = currentPage_sh st" for p
  proof (cases "p = ?q")
    case True
    then show ?thesis by (simp add: place_fields)
  next
    case False
    then have "p \<in> set (packed_sh st)" using that(1) by simp
    then show ?thesis using shelf that(2) pos by fastforce
  qed
  show ?thesis
    unfolding shelfDisjoint_def shelfPlace_def
    using height pages out' shelf' by (simp add: place_fields)
qed

lemma shelfDisjoint_next_shelf:
  assumes "shelfDisjoint sp st"
  shows "shelfDisjoint sp (st\<lparr> currentY := currentY st + shelfHeight st,
                               currentX := x0, shelfHeight := 0 \<rparr>)"
  using assms unfolding shelfDisjoint_def by fastforce

lemma shelfDisjoint_next_page:
  assumes "shelfDisjoint sp st"
  shows "shelfDisjoint sp (st\<lparr> currentPage_sh := currentPage_sh st + 1, currentY := y0,
                               currentX := x0, shelfHeight := 0 \<rparr>)"
proof -
  from assms have pages: "\<forall>p \<in> set (packed_sh st). pageIndex p \<le> currentPage_sh st"
    and out: "nonOverlapping sp (packed_sh st)"
    by (simp_all add: shelfDisjoint_def)
  have "\<forall>p \<in> set (packed_sh st). pageIndex p \<noteq> currentPage_sh st + 1"
    using pages by fastforce
  then show ?thesis
    using pages out by (auto simp: shelfDisjoint_def)
qed

lemma shelfStep_disjoint:
  assumes inv: "shelfDisjoint sp st"
    and pos: "0 \<le> fst (getRotatedDimensions photo) + sp"
  shows "shelfDisjoint sp (shelfStep options printable sp st photo)"
proof -
  let ?rw = "fst (getRotatedDimensions photo) + sp" and ?rh = "snd (getRotatedDimensions photo) + sp"
  define st1 where "st1 =
     (if currentX st + ?rw > x_r printable + width_r printable
      then st\<lparr> currentY := currentY st + shelfHeight st, currentX := x_r printable,
               shelfHeight := 0 \<rparr>
      else st)"
  define st2 where "st2 =
     st1\<lparr> currentPage_sh := currentPage_sh st1 + 1, currentY := y_r printable,
          currentX := x_r printable, shelfHeight := 0 \<rparr>"
  have step: "shelfStep options printable sp st photo =
      (if currentY st1 + ?rh > y_r printable + height_r printable
       then (if truthy (multiPage options) then shelfPlace photo ?rw ?rh st2 else st1)
       else shelfPlace photo ?rw ?rh st1)"
    by (simp add: shelfStep_def Let_def st1_def st2_def)
  have inv1: "shelfDisjoint sp st1"
    unfolding st1_def using inv shelfDisjoint_next_shelf [OF inv] by simp
  have inv2: "shelfDisjoint sp st2"
    unfolding st2_def by (rule shelfDisjoint_next_page [OF inv1])
  show ?thesis
    unfolding step
    using inv1 shelfPlace_disjoint [OF inv2 pos] shelfPlace_disjoint [OF inv1 pos]
    by simp
qed

lemma packPhotosShelf_nonOverlapping:
  assumes "valid_options options" "\<forall>photo \<in> set photos. valid_photo photo"
  shows "nonOverlapping (num_or (spacing options) 0) (packPhotosShelf photos options)"
proof -
  let ?pr = "getPrintableArea options" and ?sp = "num_or (spacing options) 0"
  have "shelfDisjoint ?sp (foldl (shelfStep options ?pr ?sp)
           \<lparr> packed_sh = [], currentPage_sh = 0, currentY = y_r ?pr, currentX = x_r ?pr,
             shelfHeight = 0 \<rparr>
           (sort_by byPriorityThenHeight photos))"
  proof (rule foldl_invariant [where Inv = "shelfDisjoint ?sp"])
    show "shelfDisjoint ?sp \<lparr> packed_sh = [], currentPage_sh = 0, currentY = y_r ?pr,
             currentX = x_r ?pr, shelfHeight = 0 \<rparr>"
      by (simp add: shelfDisjoint_def nonOverlapping_Nil)
  next
    fix st photo
    assume "photo \<in> set (sort_by byPriorityThenHeight photos)" and inv: "shelfDisjoint ?sp st"
    then have "valid_photo photo" using assms(2) by (simp add: set_sort_by)
    from valid_padded [OF assms(1) this]
    show "shelfDisjoint ?sp (shelfStep options ?pr ?sp st photo)"
      by (intro shelfStep_disjoint [OF inv]) simp_all
  qed
  then show ?thesis
    by (simp add: packPhotosShelf_def Let_def shelfDisjoint_def)
qed

text \<open>Non-overlap holds for the Guillotine and the Shelf driver.\<close>

lemma placements_non_overlapping:
  assumes "valid_options options" "\<forall>photo \<in> set photos. valid_photo photo"
    and "algorithm = ''guillotine'' \<or> algorithm = ''shelf''"
  shows "nonOverlapping (num_or (spacing options) 0) (packPhotos photos algorithm options)"
  using packPhotosGuillotine_nonOverlapping [OF assms(1,2)]
    packPhotosShelf_nonOverlapping [OF assms(1,2)] assms(3)
  by (auto simp: packPhotos_def)

section \<open>Page indices when every item fits\<close>

text \<open>Nothing is placed yet and the driver is at the start of page 0, or the pages in use are
  \<open>0, \<dots>, currentPage\<close>.\<close>

lemma pages_snoc_same:
  assumes "pageIndex ` set ps = {0..n}"
  shows "pageIndex ` set (ps @ [place photo px py n]) = {0..n}"
  using assms by (auto simp: place_fields)

lemma pages_snoc_next:
  assumes "pageIndex ` set ps = {0..n}"
  shows "pageIndex ` set (ps @ [place photo px py (n + 1)]) = {0..n + 1}"
proof -
  have "{0..n + 1} = insert (n + 1) {0..n}" by auto
  then show ?thesis using assms by (simp add: place_fields)
qed

lemma guillotineStep_pages:
  assumes inv: "(packed st = [] \<and> currentPage st = 0 \<and> freeRectangles st = [printable]) \<or>
                pageIndex ` set (packed st) = {0..currentPage st}"
    and fit: "fits (fst (getRotatedDimensions photo) + sp) (snd (getRotatedDimensions photo) + sp)
                printable"
  shows "(packed (guillotineStep options printable sp st photo) = [] \<and>
          currentPage (guillotineStep options printable sp st photo) = 0 \<and>
          freeRectangles (guillotineStep options printable sp st photo) = [printable]) \<or>
         pageIndex ` set (packed (guillotineStep options printable sp st photo))
           = {0..currentPage (guillotineStep options printable sp st photo)}"
proof -
  let ?rw = "fst (getRotatedDimensions photo) + sp" and ?rh = "snd (getRotatedDimensions photo) + sp"
  let ?step = "guillotineStep options printable sp st photo"
  from inv show ?thesis
  proof
    assume empty: "packed st = [] \<and> currentPage st = 0 \<and> freeRectangles st = [printable]"
    then have "firstFit ?rw ?rh (freeRectangles st) = Some 0"
      using fit by simp
    then have "?step = guillotinePlace photo ?rw ?rh 0 st"
      by (simp add: guillotineStep_def Let_def)
    then have "packed ?step = [place photo (x_r printable) (y_r printable) 0]"
      "currentPage ?step = 0"
      using empty by (simp_all add: guillotinePlace_def Let_def)
    then show ?thesis by (simp add: place_fields)
  next
    assume pages: "pageIndex ` set (packed st) = {0..currentPage st}"
    show ?thesis
    proof (cases "firstFit ?rw ?rh (freeRectangles st)")
      case (Some i)
      then have "?step = guillotinePlace photo ?rw ?rh i st"
        by (simp add: guillotineStep_def Let_def)
      then have "packed ?step = packed st @ [place photo (x_r (freeRectangles st ! i))
                     (y_r (freeRectangles st ! i)) (currentPage st)]"
        "currentPage ?step = currentPage st"
        by (simp_all add: guillotinePlace_def Let_def)
      then show ?thesis using pages_snoc_same [OF pages] by simp
    next
      case None
      show ?thesis
      proof (cases "truthy (multiPage options)")
        case False
        then have "?step = st" using None by (simp add: guillotineStep_def Let_def)
        then show ?thesis using pages by simp
      next
        case True
        then have "?step = guillotinePlace photo ?rw ?rh 0
            (st\<lparr> currentPage := currentPage st + 1, freeRectangles := [printable] \<rparr>)"
          using None fit by (simp add: guillotineStep_def Let_def)
        then have "packed ?step = packed st @ [place photo (x_r printable) (y_r printable)
                       (currentPage st + 1)]"
          "currentPage ?step = currentPage st + 1"
          by (simp_all add: guillotinePlace_def Let_def)
        then show ?thesis using pages_snoc_next [OF pages] by simp
      qed
    qed
  qed
qed

lemma maxRectsStep_pages:
  assumes inv: "(packed st = [] \<and> currentPage st = 0 \<and> freeRectangles st = [printable]) \<or>
                pageIndex ` set (packed st) = {0..currentPage st}"
    and fit: "fits (fst (getRotatedDimensions photo) + sp) (snd (getRotatedDimensions photo) + sp)
                printable"
  shows "(packed (maxRectsStep options printable sp st photo) = [] \<and>
          currentPage (maxRectsStep options printable sp st photo) = 0 \<and>
          freeRectangles (maxRectsStep options printable sp st photo) = [printable]) \<or>
         pageIndex ` set (packed (maxRectsStep options printable sp st photo))
           = {0..currentPage (maxRectsStep options printable sp st photo)}"
proof -
  let ?rw = "fst (getRotatedDimensions photo) + sp" and ?rh = "snd (getRotatedDimensions photo) + sp"
  let ?step = "maxRectsStep options printable sp st photo"
  from inv show ?thesis
  proof
    assume empty: "packed st = [] \<and> currentPage st = 0 \<and> freeRectangles st = [printable]"
    have "findBest ?rw ?rh [printable] \<noteq> None"
      using fit by (simp add: findBest_None)
    then obtain i where i: "findBest ?rw ?rh [printable] = Some i" by blast
    then have "i = 0" using findBest_Some [OF i] by simp
    with i have "?step = maxRectsPlace photo ?rw ?rh 0 st"
      using empty by (simp add: maxRectsStep_def Let_def)
    then have "packed ?step = [place photo (x_r printable) (y_r printable) 0]"
      "currentPage ?step = 0"
      using empty by (simp_all add: maxRectsPlace_def Let_def)
    then show ?thesis by (simp add: place_fields)
  next
    assume pages: "pageIndex ` set (packed st) = {0..currentPage st}"
    show ?thesis
    proof (cases "findBest ?rw ?rh (freeRectangles st)")
      case (Some i)
      then have "?step = maxRectsPlace photo ?rw ?rh i st"
        by (simp add: maxRectsStep_def Let_def)
      then have "packed ?step = packed st @ [place photo (x_r (freeRectangles st ! i))
                     (y_r (freeRectangles st ! i)) (currentPage st)]"
        "currentPage ?step = currentPage st"
        by (simp_all add: maxRectsPlace_def Let_def)
      then show ?thesis using pages_snoc_same [OF pages] by simp
    next
      case None
      show ?thesis
      proof (cases "truthy (multiPage options)")
        case False
        then have "?step = st" using None by (simp add: maxRectsStep_def Let_def)
        then show ?thesis using pages by simp
      next
        case True
        then have "?step = maxRectsPlaceFresh photo ?rw ?rh
            (st\<lparr> currentPage := currentPage st + 1, freeRectangles := [printable] \<rparr>)"
          using None fit by (simp add: maxRectsStep_def Let_def)
        then have "packed ?step = packed st @ [place photo (x_r printable) (y_r printable)
                       (currentPage st + 1)]"
          "currentPage ?step = currentPage st + 1"
          by (simp_all add: maxRectsPlaceFresh_def Let_def)
        then show ?thesis using pages_snoc_next [OF pages] by simp
      qed
    qed
  qed
qed

lemma shelfStep_pages:
  assumes inv: "(packed_sh st = [] \<and> currentPage_sh st = 0 \<and> currentX st = x_r printable \<and>
                 currentY st = y_r printable) \<or>
                pageIndex ` set (packed_sh st) = {0..currentPage_sh st}"
    and fit: "fits (fst (getRotatedDimensions photo) + sp) (snd (getRotatedDimensions photo) + sp)
                printable"
  shows "(packed_sh (shelfStep options printable sp st photo) = [] \<and>
          currentPage_sh (shelfStep options printable sp st photo) = 0 \<and>
          currentX (shelfStep options printable sp st photo) = x_r printable \<and>
          currentY (shelfStep options printable sp st photo) = y_r printable) \<or>
         pageIndex ` set (packed_sh (shelfStep options printable sp st photo))
           = {0..currentPage_sh (shelfStep options printable sp st photo)}"
proof -
  let ?rw = "fst (getRotatedDimensions photo) + sp" and ?rh = "snd (getRotatedDimensions photo) + sp"
  let ?step = "shelfStep options printable sp st photo"
  from inv show ?thesis
  proof
    assume empty: "packed_sh st = [] \<and> currentPage_sh st = 0 \<and> currentX st = x_r printable \<and>
                   currentY st = y_r printable"
    then have "?step = shelfPlace photo ?rw ?rh st"
      using fit by (simp add: shelfStep_def Let_def fits_def)
    then have "packed_sh ?step = [place photo (x_r printable) (y_r printable) 0]"
      "currentPage_sh ?step = 0"
      using empty by (simp_all add: shelfPlace_def)
    then show ?thesis by (simp add: place_fields)
  next
    assume pages: "pageIndex ` set (packed_sh st) = {0..currentPage_sh st}"
    define st1 where "st1 =
       (if currentX st + ?rw > x_r printable + width_r printable
        then st\<lparr> currentY := currentY st + shelfHeight st, currentX := x_r printable,
                 shelfHeight := 0 \<rparr>
        else st)"
    define st2 where "st2 =
       st1\<lparr> currentPage_sh := currentPage_sh st1 + 1, currentY := y_r printable,
            currentX := x_r printable, shelfHeight := 0 \<rparr>"
    have step: "?step =
        (if currentY st1 + ?rh > y_r printable + height_r printable
         then (if truthy (multiPage options) then shelfPlace photo ?rw ?rh st2 else st1)
         else shelfPlace photo ?rw ?rh st1)"
      by (simp add: shelfStep_def Let_def st1_def st2_def)
    have st1: "packed_sh st1 = packed_sh st" "currentPage_sh st1 = currentPage_sh st"
      by (simp_all add: st1_def)
    have st2: "packed_sh st2 = packed_sh st" "currentPage_sh st2 = currentPage_sh st + 1"
      by (simp_all add: st2_def st1)
    have "pageIndex ` set (packed_sh (shelfPlace photo ?rw ?rh st1))
            = {0..currentPage_sh (shelfPlace photo ?rw ?rh st1)}"
      using pages_snoc_same [OF pages] by (simp add: shelfPlace_def st1)
    moreover have "pageIndex ` set (packed_sh (shelfPlace photo ?rw ?rh st2))
            = {0..currentPage_sh (shelfPlace photo ?rw ?rh st2)}"
      using pages_snoc_next [OF pages] by (simp add: shelfPlace_def st2)
    moreover have "pageIndex ` set (packed_sh st1) = {0..currentPage_sh st1}"
      using pages by (simp add: st1)
    ultimately show ?thesis
      unfolding step by simp
  qed
qed

text \<open>When every item fits the empty page, the pages of a non-empty output are
  \<open>0, \<dots>, K\<close>, for every algorithm.\<close>

lemma pages_consecutive_when_all_fit:
  assumes "\<forall>photo \<in> set photos. fitsEmptyPage options photo"
  shows "packPhotos photos algorithm options = [] \<or>
         (\<exists>K. pageIndex ` set (packPhotos photos algorithm options) = {0..K})"
proof -
  let ?pr = "getPrintableArea options" and ?sp = "num_or (spacing options) 0"
  let ?InvF = "\<lambda>st :: pack_state.
      (packed st = [] \<and> currentPage st = 0 \<and> freeRectangles st = [?pr]) \<or>
      pageIndex ` set (packed st) = {0..currentPage st}"
  let ?InvS = "\<lambda>st :: shelf_state.
      (packed_sh st = [] \<and> currentPage_sh st = 0 \<and> currentX st = x_r ?pr \<and>
       currentY st = y_r ?pr) \<or>
      pageIndex ` set (packed_sh st) = {0..currentPage_sh st}"
  have fitA: "fits (fst (getRotatedDimensions photo) + ?sp) (snd (getRotatedDimensions photo) + ?sp) ?pr"
    if "photo \<in> set (sort_by byPriorityThenArea photos)" for photo
    using that assms by (simp add: set_sort_by fitsEmptyPage_def)
  have fitH: "fits (fst (getRotatedDimensions photo) + ?sp) (snd (getRotatedDimensions photo) + ?sp) ?pr"
    if "photo \<in> set (sort_by byPriorityThenHeight photos)" for photo
    using that assms by (simp add: set_sort_by fitsEmptyPage_def)
  have "?InvF (foldl (guillotineStep options ?pr ?sp)
           \<lparr> packed = [], currentPage = 0, freeRectangles = [?pr] \<rparr>
           (sort_by byPriorityThenArea photos))"
    by (rule foldl_invariant [where Inv = ?InvF]) (simp, rule guillotineStep_pages [OF _ fitA])
  then have g: "packPhotosGuillotine photos options = [] \<or>
      (\<exists>K. pageIndex ` set (packPhotosGuillotine photos options) = {0..K})"
    unfolding packPhotosGuillotine_def Let_def by blast
  have "?InvF (foldl (maxRectsStep options ?pr ?sp)
           \<lparr> packed = [], currentPage = 0, freeRectangles = [?pr] \<rparr>
           (sort_by byPriorityThenArea photos))"
    by (rule foldl_invariant [where Inv = ?InvF]) (simp, rule maxRectsStep_pages [OF _ fitA])
  then have m: "packPhotosMaxRects photos options = [] \<or>
      (\<exists>K. pageIndex ` set (packPhotosMaxRects photos options) = {0..K})"
    unfolding packPhotosMaxRects_def Let_def by blast
  have "?InvS (foldl (shelfStep options ?pr ?sp)
           \<lparr> packed_sh = [], currentPage_sh = 0, currentY = y_r ?pr, currentX = x_r ?pr,
             shelfHeight = 0 \<rparr>
           (sort_by byPriorityThenHeight photos))"
    by (rule foldl_invariant [where Inv = ?InvS]) (simp, rule shelfStep_pages [OF _ fitH])
  then have s: "packPhotosShelf photos options = [] \<or>
      (\<exists>K. pageIndex ` set (packPhotosShelf photos options) = {0..K})"
    unfolding packPhotosShelf_def Let_def by blast
  show ?thesis using g m s by (simp add: packPhotos_def)
qed

section \<open>Containment in the printable area\<close>

text \<open>
  Claim C1: every placement returned by pack lies inside the printable area of its page.
  The Shelf driver does not satisfy it. It moves an item that does not fit the current
  shelf (or page) to the next one and then places it without a second test, where the
  Guillotine and MaxRects drivers test the item against the empty page and drop it. On the
  specification's scenario S5 (page 3 by 5, one item 3 by 5 rotated by 90 degrees, so 5
  wide) the item is placed at the origin and ends at x = 5, beyond the page width 3.
  Containment does hold for the Guillotine and MaxRects drivers, and for the Shelf driver
  when every item fits the empty page (\<open>placements_inside_printable\<close>).
\<close>

theorem shelf_places_oversize_item_outside:
  "valid_options (mkOptions 3 5 0 False) \<and> valid_photo (mkPhoto 1 3 5 90 None) \<and>
   packPhotos [mkPhoto 1 3 5 90 None] ''shelf'' (mkOptions 3 5 0 False)
     = [place (mkPhoto 1 3 5 90 None) 0 0 0] \<and>
   \<not> insidePrintable (mkOptions 3 5 0 False) (place (mkPhoto 1 3 5 90 None) 0 0 0)"
  by code_simp

section \<open>Non-overlap\<close>

text \<open>
  Claim C2: two distinct placements on the same page have disjoint spacing-padded
  rectangles. The MaxRects driver does not satisfy it: it splits the host rectangle into
  two strips that share the corner below and right of the item, and never cuts the other
  free rectangles by the placed item. On a 10 by 10 page the items 6 by 6, 4 by 8 and
  8 by 4 are placed at (0,0), (6,0) and (0,6); the second and third both cover the square
  from (6,6) to (8,8). Non-overlap does hold for the Guillotine and Shelf drivers
  (\<open>placements_non_overlapping\<close>).
\<close>

theorem maxrects_overlapping_placements:
  "valid_options (mkOptions 10 10 0 False) \<and> valid_photo (mkPhoto 1 6 6 0 None) \<and>
   valid_photo (mkPhoto 2 4 8 0 None) \<and> valid_photo (mkPhoto 3 8 4 0 None) \<and>
   packPhotos [mkPhoto 1 6 6 0 None, mkPhoto 2 4 8 0 None, mkPhoto 3 8 4 0 None] ''maxrects''
       (mkOptions 10 10 0 False)
     = [place (mkPhoto 1 6 6 0 None) 0 0 0, place (mkPhoto 2 4 8 0 None) 6 0 0,
        place (mkPhoto 3 8 4 0 None) 0 6 0] \<and>
   pageIndex (place (mkPhoto 2 4 8 0 None) 6 0 0) = pageIndex (place (mkPhoto 3 8 4 0 None) 0 6 0) \<and>
   \<not> paddedDisjoint (num_or (spacing (mkOptions 10 10 0 False)) 0) (place (mkPhoto 2 4 8 0 None) 6 0 0) (place (mkPhoto 3 8 4 0 None) 0 6 0)"
  by code_simp

section \<open>Algorithm selection\<close>

text \<open>
  Claim C3: a selector outside guillotine, shelf and maxrects gives an UnknownAlgorithm
  error and no placements. The code has no such error: the \<open>default\<close> branch of the
  \<open>switch\<close> runs the MaxRects driver. At the selector \<open>bogus\<close> a 2 by 3 photo is placed.
\<close>

theorem unknown_algorithm_counterexample:
  "pack [mkPhoto 1 2 3 0 None] (mkOptions 4 6 0 False) ''bogus''
     = Inr [place (mkPhoto 1 2 3 0 None) 0 0 0]"
  by code_simp

text \<open>
  Claim C3, amended: for a selector outside guillotine, shelf and maxrects, pack returns
  no error; it returns the placements of the MaxRects driver.
\<close>

theorem unknown_algorithm_is_maxrects:
  "algorithm \<notin> {''guillotine'', ''shelf'', ''maxrects''} \<Longrightarrow>
     pack inputs config algorithm = Inr (packPhotosMaxRects inputs config)"
  by (simp add: pack_def packPhotos_def)

theorem unknown_algorithm_is_maxrects_witness:
  "''bogus'' \<notin> {''guillotine'', ''shelf'', ''maxrects''} \<and>
   pack [mkPhoto 1 2 3 0 None] (mkOptions 4 6 0 False) ''bogus''
     = Inr (packPhotosMaxRects [mkPhoto 1 2 3 0 None] (mkOptions 4 6 0 False))"
  using unknown_algorithm_is_maxrects
    [of "''bogus''" "[mkPhoto 1 2 3 0 None]" "mkOptions 4 6 0 False"]
  by simp

section \<open>Invalid geometry\<close>

text \<open>
  Claim C4: a configuration without printable area (and likewise a non-positive photo
  dimension, an unsupported rotation, a negative spacing or margin) gives an
  InvalidGeometry error and no placements. The code validates nothing and has no error
  value: with margins 2 on a 4 by 6 page (printable width 0) the result is the empty list
  of placements, not an error; a photo of width 0 is placed; and a photo with rotation 45
  is placed under spacing -1.
\<close>

theorem invalid_geometry_counterexample:
  "pack [mkPhoto 1 2 3 0 None] (mkOptions 4 6 2 False) ''maxrects'' = Inr [] \<and>
   pack [mkPhoto 1 0 3 0 None] (mkOptions 4 6 0 False) ''maxrects''
     = Inr [place (mkPhoto 1 0 3 0 None) 0 0 0] \<and>
   pack [mkPhoto 1 2 3 45 None] ((mkOptions 4 6 0 False)\<lparr> spacing := Some (-1) \<rparr>) ''guillotine''
     = Inr [place (mkPhoto 1 2 3 45 None) 0 0 0]"
  by code_simp

text \<open>
  Claim C4, amended: pack returns no error. For a configuration whose margins leave a
  printable width or height that is not positive, with valid photos and a non-negative
  spacing, every algorithm selector other than shelf returns the empty list of placements.
\<close>

theorem no_printable_area_no_placements:
  assumes "width_r (getPrintableArea config) \<le> 0 \<or> height_r (getPrintableArea config) \<le> 0"
    and "\<forall>photo \<in> set inputs. valid_photo photo"
    and "0 \<le> num_or (spacing config) 0"
    and "algorithm \<noteq> ''shelf''"
  shows "pack inputs config algorithm = Inr []"
proof -
  let ?sp = "num_or (spacing config) 0"
  have nofit: "\<not> fits (fst (getRotatedDimensions photo) + ?sp)
                      (snd (getRotatedDimensions photo) + ?sp) (getPrintableArea config)"
    if "photo \<in> set inputs" for photo
  proof -
    have "valid_photo photo" using that assms(2) by simp
    from valid_photo_dims [OF this] assms(1,3) show ?thesis
      by (auto simp: fits_def)
  qed
  then have sorted: "\<forall>photo \<in> set (sort_by byPriorityThenArea inputs).
      \<not> fits (fst (getRotatedDimensions photo) + ?sp)
            (snd (getRotatedDimensions photo) + ?sp) (getPrintableArea config)"
    by (simp add: set_sort_by)
  have g: "packPhotosGuillotine inputs config = []"
    using guillotine_foldl_nofit [OF _ sorted, of
        "\<lparr> packed = [], currentPage = 0, freeRectangles = [getPrintableArea config] \<rparr>" config]
    by (simp add: packPhotosGuillotine_def Let_def)
  have m: "packPhotosMaxRects inputs config = []"
    using maxRects_foldl_nofit [OF _ sorted, of
        "\<lparr> packed = [], currentPage = 0, freeRectangles = [getPrintableArea config] \<rparr>" config]
    by (simp add: packPhotosMaxRects_def Let_def)
  show ?thesis using g m assms(4) by (simp add: pack_def packPhotos_def)
qed

theorem no_printable_area_no_placements_witness:
  "(width_r (getPrintableArea (mkOptions 4 6 2 False)) \<le> 0 \<or>
    height_r (getPrintableArea (mkOptions 4 6 2 False)) \<le> 0) \<and>
   valid_photo (mkPhoto 1 2 3 0 None) \<and>
   0 \<le> num_or (spacing (mkOptions 4 6 2 False)) 0 \<and>
   ''guillotine'' \<noteq> ''shelf'' \<and>
   pack [mkPhoto 1 2 3 0 None] (mkOptions 4 6 2 False) ''guillotine'' = Inr []"
proof -
  have a: "width_r (getPrintableArea (mkOptions 4 6 2 False)) \<le> 0 \<or>
           height_r (getPrintableArea (mkOptions 4 6 2 False)) \<le> 0"
    by code_simp
  have b: "valid_photo (mkPhoto 1 2 3 0 None)"
    by code_simp
  then have b': "\<forall>photo \<in> set [mkPhoto 1 2 3 0 None]. valid_photo photo"
    by simp
  have c: "0 \<le> num_or (spacing (mkOptions 4 6 2 False)) 0"
    by code_simp
  have d: "''guillotine'' \<noteq> ''shelf''"
    by simp
  show ?thesis
    using no_printable_area_no_placements [OF a b' c d] a b c d by simp
qed

section \<open>Page indices\<close>

text \<open>
  Claim C5: the page indices of a non-empty output are 0, 1, ..., K with no page left
  empty. The Guillotine and MaxRects drivers increment \<open>currentPage\<close> before they test
  the item against the empty page, so an item larger than the printable area burns a
  page: with multiPage on a 4 by 6 page, a 5 by 5 item followed by a 2 by 2 item gives one
  placement, on page 1, and page 0 stays empty. The Shelf driver opens page 1 for a first
  item taller than the page and places it there. The property does hold when every item
  fits the empty page (\<open>pages_consecutive_when_all_fit\<close>).
\<close>

theorem oversize_item_leaves_page_zero_empty:
  "valid_options (mkOptions 4 6 0 True) \<and> valid_photo (mkPhoto 1 5 5 0 None) \<and>
   valid_photo (mkPhoto 2 2 2 0 None) \<and> valid_photo (mkPhoto 1 2 7 0 None) \<and>
   map pageIndex (packPhotos [mkPhoto 1 5 5 0 None, mkPhoto 2 2 2 0 None] ''guillotine''
       (mkOptions 4 6 0 True)) = [1] \<and>
   map pageIndex (packPhotos [mkPhoto 1 5 5 0 None, mkPhoto 2 2 2 0 None] ''maxrects''
       (mkOptions 4 6 0 True)) = [1] \<and>
   map pageIndex (packPhotos [mkPhoto 1 2 7 0 None, mkPhoto 2 2 2 0 None] ''shelf''
       (mkOptions 4 6 0 True)) = [1, 1]"
  by code_simp

section \<open>Duplicating an input\<close>

text \<open>
  Claim C6: adding another copy of an input never decreases the number of placements.
  With multiPage off it does: on a 4 by 4 page the Guillotine driver places the items
  4 by 2, 2 by 2, 2 by 2 (three placements); with a second 4 by 2 item the two large items
  fill the page and both small ones are dropped (two placements).
\<close>

theorem duplicate_decreases_counterexample:
  "valid_options (mkOptions 4 4 0 False) \<and> valid_photo (mkPhoto 1 4 2 0 None) \<and>
   valid_photo (mkPhoto 2 2 2 0 None) \<and> valid_photo (mkPhoto 3 2 2 0 None) \<and>
   valid_photo (mkPhoto 4 4 2 0 None) \<and>
   size_p (mkPhoto 4 4 2 0 None) = size_p (mkPhoto 1 4 2 0 None) \<and>
   rotation (mkPhoto 4 4 2 0 None) = rotation (mkPhoto 1 4 2 0 None) \<and>
   priority (mkPhoto 4 4 2 0 None) = priority (mkPhoto 1 4 2 0 None) \<and>
   length (packPhotos [mkPhoto 1 4 2 0 None, mkPhoto 2 2 2 0 None, mkPhoto 3 2 2 0 None,
                       mkPhoto 4 4 2 0 None] ''guillotine'' (mkOptions 4 4 0 False))
   < length (packPhotos [mkPhoto 1 4 2 0 None, mkPhoto 2 2 2 0 None, mkPhoto 3 2 2 0 None]
                ''guillotine'' (mkOptions 4 4 0 False))"
  by code_simp

text \<open>
  Claim C6, amended: for a valid configuration with multiPage enabled, valid inputs and
  every algorithm, inserting (at any position) another copy of one of the inputs, with the
  same size, rotation and priority, never decreases the number of placements.
\<close>

theorem duplicate_monotone_multipage:
  assumes "valid_options config" "truthy (multiPage config)"
    and "\<forall>photo \<in> set inputs. valid_photo photo"
    and "original \<in> set inputs"
    and "size_p copy = size_p original" "rotation copy = rotation original"
      "priority copy = priority original"
  shows "length (packPhotos inputs algorithm config)
           \<le> length (packPhotos (take n inputs @ copy # drop n inputs) algorithm config)"
proof -
  let ?more = "take n inputs @ copy # drop n inputs"
  have "valid_photo original" using assms(3,4) by simp
  then have "valid_photo copy" using assms(5,6) by (simp add: valid_photo_def)
  then have valid: "\<forall>photo \<in> set ?more. valid_photo photo"
    using assms(3) by (auto dest: in_set_takeD in_set_dropD)
  have g: "length (packPhotosGuillotine inputs config)
             \<le> length (packPhotosGuillotine ?more config)"
    by (simp add: packPhotosGuillotine_count [OF assms(1,2)] assms(3) valid count_with_copy
          del: filter_append)
  have m: "length (packPhotosMaxRects inputs config)
             \<le> length (packPhotosMaxRects ?more config)"
    by (simp add: packPhotosMaxRects_count [OF assms(1,2)] assms(3) valid count_with_copy
          del: filter_append)
  have s: "length (packPhotosShelf inputs config) \<le> length (packPhotosShelf ?more config)"
    by (simp add: packPhotosShelf_count [OF assms(2)])
  show ?thesis using g m s by (simp add: packPhotos_def)
qed

theorem duplicate_monotone_multipage_witness:
  "valid_options (mkOptions 4 4 0 True) \<and>
   truthy (multiPage (mkOptions 4 4 0 True)) \<and>
   valid_photo (mkPhoto 1 4 2 0 None) \<and> valid_photo (mkPhoto 2 2 2 0 None) \<and>
   length (packPhotos [mkPhoto 1 4 2 0 None, mkPhoto 2 2 2 0 None] ''guillotine''
             (mkOptions 4 4 0 True))
   \<le> length (packPhotos [mkPhoto 1 4 2 0 None, mkPhoto 2 2 2 0 None, mkPhoto 3 4 2 0 None]
               ''guillotine'' (mkOptions 4 4 0 True))"
proof -
  have cfg: "valid_options (mkOptions 4 4 0 True)" "truthy (multiPage (mkOptions 4 4 0 True))"
    by code_simp+
  have v: "valid_photo (mkPhoto 1 4 2 0 None)" "valid_photo (mkPhoto 2 2 2 0 None)"
    by code_simp+
  then have all: "\<forall>photo \<in> set [mkPhoto 1 4 2 0 None, mkPhoto 2 2 2 0 None]. valid_photo photo"
    by simp
  have "length (packPhotos [mkPhoto 1 4 2 0 None, mkPhoto 2 2 2 0 None] ''guillotine''
                  (mkOptions 4 4 0 True))
        \<le> length (packPhotos
                  (take 2 [mkPhoto 1 4 2 0 None, mkPhoto 2 2 2 0 None] @ mkPhoto 3 4 2 0 None #
                   drop 2 [mkPhoto 1 4 2 0 None, mkPhoto 2 2 2 0 None]) ''guillotine''
                  (mkOptions 4 4 0 True))"
    by (rule duplicate_monotone_multipage [OF cfg all, of "mkPhoto 1 4 2 0 None"])
       (simp_all add: mkPhoto_def)
  then show ?thesis using cfg v by simp
qed

section \<open>The MaxRects choice\<close>



section \<open>Stability of the preparatory sort\<close>

text \<open>
  Claim C8: the preparatory sort is stable on remaining ties. For every priority and
  secondary key (effective area for Guillotine and MaxRects, effective height for Shelf),
  the inputs with that priority and key appear in the sorted sequence in their original
  order; and when all inputs have the same priority and the same effective dimensions,
  the photos of the placements are, in this order, a subsequence of the input list.
\<close>

theorem preparatory_sort_is_stable:
  "filter (\<lambda>p. num_or (priority p) 0 = k \<and>
                fst (getRotatedDimensions p) * snd (getRotatedDimensions p) = area)
     (sort_by byPriorityThenArea photos)
   = filter (\<lambda>p. num_or (priority p) 0 = k \<and>
                  fst (getRotatedDimensions p) * snd (getRotatedDimensions p) = area) photos \<and>
   filter (\<lambda>p. num_or (priority p) 0 = k \<and> snd (getRotatedDimensions p) = h)
     (sort_by byPriorityThenHeight photos)
   = filter (\<lambda>p. num_or (priority p) 0 = k \<and> snd (getRotatedDimensions p) = h) photos \<and>
   ((\<forall>p \<in> set photos. \<forall>q \<in> set photos.
        num_or (priority p) 0 = num_or (priority q) 0 \<and>
        getRotatedDimensions p = getRotatedDimensions q) \<longrightarrow>
    subseq (map Photo.truncate (packPhotos photos algorithm options)) photos)"
proof (intro conjI impI)
  show "filter (\<lambda>p. num_or (priority p) 0 = k \<and>
                fst (getRotatedDimensions p) * snd (getRotatedDimensions p) = area)
     (sort_by byPriorityThenArea photos)
   = filter (\<lambda>p. num_or (priority p) 0 = k \<and>
                  fst (getRotatedDimensions p) * snd (getRotatedDimensions p) = area) photos"
    by (rule filter_sort_by_stable) (simp add: byPriorityThenArea_tie)
next
  show "filter (\<lambda>p. num_or (priority p) 0 = k \<and> snd (getRotatedDimensions p) = h)
     (sort_by byPriorityThenHeight photos)
   = filter (\<lambda>p. num_or (priority p) 0 = k \<and> snd (getRotatedDimensions p) = h) photos"
    by (rule filter_sort_by_stable) (simp add: byPriorityThenHeight_tie)
next
  assume tied: "\<forall>p \<in> set photos. \<forall>q \<in> set photos.
        num_or (priority p) 0 = num_or (priority q) 0 \<and>
        getRotatedDimensions p = getRotatedDimensions q"
  have eq: "num_or (priority a) 0 = num_or (priority b) 0"
    "getRotatedDimensions a = getRotatedDimensions b"
    if "a \<in> set photos" "b \<in> set photos" for a b
    using tied that by blast+
  have "sort_by byPriorityThenArea photos = photos"
  proof (rule sort_by_all_tied)
    fix a b assume "a \<in> set photos" "b \<in> set photos"
    from eq [OF this] show "byPriorityThenArea a b \<le> 0"
      by (simp add: byPriorityThenArea_tie)
  qed
  moreover have "sort_by byPriorityThenHeight photos = photos"
  proof (rule sort_by_all_tied)
    fix a b assume "a \<in> set photos" "b \<in> set photos"
    from eq [OF this] show "byPriorityThenHeight a b \<le> 0"
      by (simp add: byPriorityThenHeight_tie)
  qed
  ultimately show "subseq (map Photo.truncate (packPhotos photos algorithm options)) photos"
    using packPhotosGuillotine_subseq [of photos options]
      packPhotosMaxRects_subseq [of photos options]
      packPhotosShelf_subseq [of photos options]
    by (simp add: packPhotos_def)
qed

theorem preparatory_sort_is_stable_witness:
  "num_or (priority (mkPhoto 1 2 2 0 None)) 0 = num_or (priority (mkPhoto 2 2 2 0 None)) 0 \<and>
   getRotatedDimensions (mkPhoto 1 2 2 0 None) = getRotatedDimensions (mkPhoto 2 2 2 0 None) \<and>
   sort_by byPriorityThenHeight [mkPhoto 1 2 2 0 None, mkPhoto 2 2 2 0 None]
     = [mkPhoto 1 2 2 0 None, mkPhoto 2 2 2 0 None] \<and>
   subseq (map Photo.truncate
             (packPhotos [mkPhoto 1 2 2 0 None, mkPhoto 2 2 2 0 None] ''shelf''
                (mkOptions 6 4 0 False)))
     [mkPhoto 1 2 2 0 None, mkPhoto 2 2 2 0 None]"
proof -
  define p1 where "p1 = mkPhoto 1 2 2 0 None"
  define p2 where "p2 = mkPhoto 2 2 2 0 None"
  have pr: "num_or (priority p1) 0 = 0" "num_or (priority p2) 0 = 0"
    by (simp_all add: p1_def p2_def mkPhoto_def num_or_def)
  have dims: "getRotatedDimensions p1 = (2, 2)" "getRotatedDimensions p2 = (2, 2)"
    by (simp_all add: p1_def p2_def mkPhoto_def getRotatedDimensions_def)
  have tied: "\<forall>p \<in> set [p1, p2]. \<forall>q \<in> set [p1, p2].
        num_or (priority p) 0 = num_or (priority q) 0 \<and>
        getRotatedDimensions p = getRotatedDimensions q"
    by (simp add: pr dims)
  note inst = preparatory_sort_is_stable [of 0 4 "[p1, p2]" 2 "''shelf''" "mkOptions 6 4 0 False"]
  have "filter (\<lambda>p. num_or (priority p) 0 = 0 \<and> snd (getRotatedDimensions p) = 2) [p1, p2]
          = [p1, p2]"
    by (simp add: pr dims)
  moreover have "filter (\<lambda>p. num_or (priority p) 0 = 0 \<and> snd (getRotatedDimensions p) = 2)
           (sort_by byPriorityThenHeight [p1, p2]) = sort_by byPriorityThenHeight [p1, p2]"
    by (rule filter_True) (simp add: set_sort_by pr dims)
  ultimately have sorted: "sort_by byPriorityThenHeight [p1, p2] = [p1, p2]"
    using inst by simp
  have "subseq (map Photo.truncate (packPhotos [p1, p2] ''shelf'' (mkOptions 6 4 0 False)))
          [p1, p2]"
    using inst tied by blast
  with sorted show ?thesis
    using pr dims unfolding p1_def p2_def by simp
qed

section \<open>Priority\<close>




section \<open>Copies per quantity\<close>



end
